theory Spec2Isabelle
  imports Main "HOL-Library.AList" "HOL-Library.Char_ord" "HOL-Library.List_Lexorder"
begin

section \<open>Python string primitives used by the directory manager\<close>

text \<open>
  A Python \<open>str\<close> is modelled as a \<^typ>\<open>string\<close>, each \<^typ>\<open>char\<close> standing for the code
  point of the same number (0 to 255). Only the library calls of \<open>main.py\<close> are modelled:
  \<open>split\<close>, \<open>find\<close>, \<open>rindex\<close>, \<open>strip\<close>, \<open>lower\<close>.
\<close>

datatype py_error = ValueError

text \<open>\<open>s.split(c)\<close> for a one-character separator: never empty, \<open>"".split(c) == [""]\<close>.\<close>

fun py_split :: "char \<Rightarrow> string \<Rightarrow> string list" where
  "py_split c [] = [[]]"
| "py_split c (x # xs) =
     (if x = c then [] # py_split c xs
      else (case py_split c xs of
              [] \<Rightarrow> [[x]]
            | y # ys \<Rightarrow> (x # y) # ys))"

text \<open>\<open>s.find(c)\<close>: the index of the first occurrence, \<open>-1\<close> when there is none.\<close>

fun py_find :: "char \<Rightarrow> string \<Rightarrow> int" where
  "py_find c [] = - 1"
| "py_find c (x # xs) =
     (if x = c then 0
      else (let r = py_find c xs in if r < 0 then - 1 else r + 1))"

text \<open>\<open>s.rindex(c)\<close>: the index of the last occurrence; raises \<open>ValueError\<close> when there is none.\<close>

fun py_rindex :: "char \<Rightarrow> string \<Rightarrow> py_error + nat" where
  "py_rindex c [] = Inl ValueError"
| "py_rindex c (x # xs) =
     (case py_rindex c xs of
        Inr i \<Rightarrow> Inr (Suc i)
      | Inl e \<Rightarrow> (if x = c then Inr 0 else Inl e))"

text \<open>The code points below 256 that \<open>str.isspace\<close> accepts.\<close>

definition is_space :: "char \<Rightarrow> bool" where
  "is_space c =
     (let n = (of_char c :: nat)
      in (9 \<le> n \<and> n \<le> 13) \<or> (28 \<le> n \<and> n \<le> 32) \<or> n = 133 \<or> n = 160)"

definition py_strip :: "string \<Rightarrow> string" where
  "py_strip s = rev (dropWhile is_space (rev (dropWhile is_space s)))"

text \<open>\<open>str.lower\<close> on the code points below 256: A-Z and the Latin-1 capitals.\<close>

definition lower_char :: "char \<Rightarrow> char" where
  "lower_char c =
     (let n = (of_char c :: nat)
      in if (65 \<le> n \<and> n \<le> 90) \<or> (192 \<le> n \<and> n \<le> 222 \<and> n \<noteq> 215)
         then char_of (n + 32) else c)"

definition py_lower :: "string \<Rightarrow> string" where
  "py_lower s = map lower_char s"

section \<open>Path helpers of \<open>DirectoryManager\<close>\<close>

text \<open>\<open>[p for p in path.split('/') if p]\<close>\<close>

definition path_parts :: "string \<Rightarrow> string list" where
  "path_parts path = filter (\<lambda>p. p \<noteq> []) (py_split CHR ''/'' path)"

text \<open>The characters of the literal \<open>'\/:*?"<>|'\<close>.\<close>

definition reserved_chars :: "char list" where
  "reserved_chars =
     [CHR 0x5C, CHR ''/'', CHR '':'', CHR ''*'', CHR ''?'', CHR 0x22, CHR ''<'', CHR ''>'', CHR ''|'']"

text \<open>The body of the loop of \<open>_is_valid_path\<close>: the part is rejected when this holds.\<close>

definition bad_part :: "string \<Rightarrow> bool" where
  "bad_part part = (part = [] \<or> list_ex (\<lambda>char. char \<in> set part) reserved_chars)"

fun is_valid_parts :: "string list \<Rightarrow> bool" where
  "is_valid_parts [] = True"
| "is_valid_parts (part # parts) = (if bad_part part then False else is_valid_parts parts)"

definition is_valid_path :: "string \<Rightarrow> bool" where
  "is_valid_path path = (if path = [] then False else is_valid_parts (path_parts path))"

text \<open>\<open>all(p == c for p, c in zip(parent_parts, child_parts))\<close>\<close>

definition is_subdirectory :: "string \<Rightarrow> string \<Rightarrow> bool" where
  "is_subdirectory parent_path child_path =
     (let parent_parts = path_parts parent_path;
          child_parts = path_parts child_path
      in if length parent_parts \<ge> length child_parts then False
         else list_all (\<lambda>(p, c). p = c) (zip parent_parts child_parts))"

text \<open>\<open>[p.strip() for p in s.split(',') if p.strip()]\<close>\<close>

definition comma_pieces :: "string \<Rightarrow> string list" where
  "comma_pieces s = map py_strip (filter (\<lambda>p. py_strip p \<noteq> []) (py_split CHR '','' s))"

definition expand_path_list :: "string \<Rightarrow> py_error + string list" where
  "expand_path_list path =
     (if CHR '','' \<notin> set path then Inr [path]
      else if CHR ''/'' \<notin> set path \<or> py_find CHR '','' path < py_find CHR ''/'' path
        then Inr (comma_pieces path)
      else (case py_rindex CHR ''/'' path of
              Inl e \<Rightarrow> Inl e
            | Inr i \<Rightarrow>
                (let base_path = take (i + 1) path;
                     names = py_split CHR '','' (drop (length base_path) path)
                 in Inr (map (\<lambda>name. base_path @ py_strip name)
                          (filter (\<lambda>name. py_strip name \<noteq> []) names)))))"

section \<open>The heap of \<open>Node\<close> objects\<close>

text \<open>
  \<open>Node\<close> objects are mutable and shared by reference, so the model keeps an explicit
  store: an address is an index into the list of allocated objects, \<open>Node(name)\<close>
  appends a fresh object, and a \<open>children\<close> dictionary maps names to addresses. The
  dictionary is an association list in insertion order, as a Python \<open>dict\<close> is.
\<close>

type_synonym addr = nat

record node =
  name :: string
  children :: "(string \<times> addr) list"

record directory_manager =
  heap :: "node list"
  root :: addr

definition Node :: "string \<Rightarrow> node" where
  "Node n = \<lparr>name = n, children = []\<rparr>"

text \<open>\<open>DirectoryManager.__init__\<close>: \<open>self.root = Node("")\<close>.\<close>

definition init :: directory_manager where
  "init = \<lparr>heap = [Node []], root = 0\<rparr>"

text \<open>\<open>h[a].children = cs\<close>, the in-place update of one object's dictionary.\<close>

definition set_children :: "node list \<Rightarrow> addr \<Rightarrow> (string \<times> addr) list \<Rightarrow> node list" where
  "set_children h a cs = h[a := (h ! a)\<lparr>children := cs\<rparr>]"

text \<open>
  The loop shared by \<open>create\<close> and \<open>move\<close>:
  \<^verbatim>\<open>
  for part in parts:
      if part not in current.children:
          current.children[part] = Node(part)
      current = current.children[part]
  \<close>
  It returns the heap and the node reached.
\<close>

fun make_dirs :: "node list \<Rightarrow> addr \<Rightarrow> string list \<Rightarrow> node list \<times> addr" where
  "make_dirs h current [] = (h, current)"
| "make_dirs h current (part # parts) =
     (case map_of (children (h ! current)) part of
        None \<Rightarrow>
          (let new = length h;
               h1 = h @ [Node part];
               h2 = set_children h1 current (AList.update part new (children (h1 ! current)))
           in make_dirs h2 new parts)
      | Some child \<Rightarrow> make_dirs h child parts)"

text \<open>
  The loop of \<open>_get_node_and_parent\<close> over \<open>parts[:-1]\<close>; \<open>None\<close> is its early
  return on a missing part.
\<close>

fun walk :: "node list \<Rightarrow> addr \<Rightarrow> string list \<Rightarrow> addr option" where
  "walk h current [] = Some current"
| "walk h current (part # parts) =
     (case map_of (children (h ! current)) part of
        None \<Rightarrow> None
      | Some child \<Rightarrow> walk h child parts)"

definition get_node_and_parent ::
  "directory_manager \<Rightarrow> string \<Rightarrow> addr option \<times> addr option \<times> string" where
  "get_node_and_parent s path =
     (if path = [] \<or> path = ''/'' then (None, Some (root s), [])
      else (let parts = path_parts path
            in if parts = [] then (None, Some (root s), [])
               else (case walk (heap s) (root s) (butlast parts) of
                       None \<Rightarrow> (None, None, last parts)
                     | Some current \<Rightarrow>
                         (Some current,
                          map_of (children (heap s ! current)) (last parts),
                          last parts))))"

section \<open>The operations\<close>

text \<open>One constructor for each message the engine reports.\<close>

datatype outcome =
    Created | InvalidName
  | DeletedRoot | DeletedSubtree | NotFound | Cancelled
  | Moved | IdenticalPaths | SourceNotFound | DestinationIsDescendant | NameCollision

subsection \<open>create\<close>

text \<open>
  The loop of \<open>create\<close> over the expanded paths: one report for each, and the heap
  after all of them. The listing that \<open>create\<close>, \<open>delete\<close> and \<open>move\<close> print at their
  end is output only; it is modelled once, by \<open>list_from\<close>.
\<close>

fun create_paths ::
  "node list \<Rightarrow> addr \<Rightarrow> string list \<Rightarrow> (string \<times> outcome) list \<times> node list" where
  "create_paths h r [] = ([], h)"
| "create_paths h r (single_path # paths) =
     (if \<not> is_valid_path single_path
      then (let (rs, h') = create_paths h r paths in ((single_path, InvalidName) # rs, h'))
      else (let (h1, current) = make_dirs h r (path_parts single_path);
                (rs, h') = create_paths h1 r paths
            in ((single_path, Created) # rs, h')))"

definition create ::
  "directory_manager \<Rightarrow> string \<Rightarrow> py_error + ((string \<times> outcome) list \<times> directory_manager)" where
  "create s path =
     (case expand_path_list path of
        Inl e \<Rightarrow> Inl e
      | Inr paths \<Rightarrow>
          (let (rs, h') = create_paths (heap s) (root s) paths
           in Inr (rs, s\<lparr>heap := h'\<rparr>)))"

subsection \<open>delete\<close>

text \<open>
  \<open>_confirm_deletion\<close> reads one line; \<open>answer\<close> is the line the user types when asked.
\<close>

definition confirm_deletion :: "string \<Rightarrow> bool" where
  "confirm_deletion answer =
     (let confirm = py_lower (py_strip answer)
      in if confirm \<notin> set [''yes'', ''y''] then False else True)"

text \<open>
  \<open>delete\<close> returns its report, whether the confirmation was asked for, and the state.
\<close>

definition delete ::
  "directory_manager \<Rightarrow> string \<Rightarrow> string \<Rightarrow> outcome \<times> bool \<times> directory_manager" where
  "delete s path answer =
     (if path \<in> set [[], ''/'', ''root'', ''root/'', ''list'']
      then (if \<not> confirm_deletion answer then (Cancelled, True, s)
            else (DeletedRoot, True, s\<lparr>heap := set_children (heap s) (root s) []\<rparr>))
      else (case get_node_and_parent s path of
              (None, node, target_name) \<Rightarrow> (NotFound, False, s)
            | (Some parent, node, target_name) \<Rightarrow>
                (case map_of (children (heap s ! parent)) target_name of
                   None \<Rightarrow> (NotFound, False, s)
                 | Some target_node \<Rightarrow>
                     (if children (heap s ! target_node) \<noteq> []
                      then (if \<not> confirm_deletion answer then (Cancelled, True, s)
                            else (DeletedSubtree, True,
                                  s\<lparr>heap := set_children (heap s) parent
                                      (AList.delete target_name (children (heap s ! parent)))\<rparr>))
                      else (DeletedSubtree, False,
                            s\<lparr>heap := set_children (heap s) parent
                                (AList.delete target_name (children (heap s ! parent)))\<rparr>)))))"

subsection \<open>move\<close>

definition move ::
  "directory_manager \<Rightarrow> string \<Rightarrow> string \<Rightarrow> outcome \<times> directory_manager" where
  "move s source destination =
     (if \<not> is_valid_path source \<or> \<not> is_valid_path destination then (InvalidName, s)
      else if source = destination then (IdenticalPaths, s)
      else (case get_node_and_parent s source of
              (None, src_node, src_name) \<Rightarrow> (SourceNotFound, s)
            | (Some src_parent, src_node, src_name) \<Rightarrow>
                (case map_of (children (heap s ! src_parent)) src_name of
                   None \<Rightarrow> (SourceNotFound, s)
                 | Some node_to_move \<Rightarrow>
                     (if is_subdirectory source destination then (DestinationIsDescendant, s)
                      else (let (h1, current) =
                                  make_dirs (heap s) (root s) (path_parts destination)
                            in if map_of (children (h1 ! current)) src_name \<noteq> None
                               then (NameCollision, s\<lparr>heap := h1\<rparr>)
                               else (let h2 = set_children h1 current
                                                (AList.update src_name node_to_move
                                                   (children (h1 ! current)));
                                         h3 = set_children h2 src_parent
                                                (AList.delete src_name (children (h2 ! src_parent)))
                                     in (Moved, s\<lparr>heap := h3\<rparr>)))))))"

subsection \<open>list\<close>

text \<open>
  One printed line: the prefix handed down (one flag for each ancestor level, true for the
  blank continuation below a last sibling, false for the bar), the branch glyph chosen by
  \<open>is_last\<close>, and \<open>child.name\<close>. \<open>indent\<close> is the level.
\<close>

record line =
  indent :: nat
  prefix :: "bool list"
  is_last :: bool
  shown :: string

datatype list_error = KeyError | RecursionError

text \<open>
  \<open>list(node, indent, prefix)\<close>. The recursion follows the heap, so it carries a bound
  on its depth, as the interpreter does: \<open>RecursionError\<close> is the result when the bound
  is reached. \<open>KeyError\<close> is the failure of \<open>node.children[name]\<close>.
\<close>

fun list_loop ::
  "(addr \<Rightarrow> nat \<Rightarrow> bool list \<Rightarrow> list_error + line list) \<Rightarrow> node list \<Rightarrow> addr \<Rightarrow>
   nat \<Rightarrow> bool list \<Rightarrow> nat \<Rightarrow> (nat \<times> string) list \<Rightarrow> list_error + line list" where
  "list_loop rec h nd ind pre len [] = Inr []"
| "list_loop rec h nd ind pre len ((i, nm) # rest) =
     (case map_of (children (h ! nd)) nm of
        None \<Rightarrow> Inl KeyError
      | Some child \<Rightarrow>
          (let last_one = (int i = int len - 1);
               ln = \<lparr>indent = ind, prefix = pre, is_last = last_one, shown = name (h ! child)\<rparr>
           in (case rec child (ind + 1) (pre @ [last_one]) of
                 Inl e \<Rightarrow> Inl e
               | Inr below \<Rightarrow>
                   (case list_loop rec h nd ind pre len rest of
                      Inl e \<Rightarrow> Inl e
                    | Inr after \<Rightarrow> Inr (ln # below @ after)))))"

text \<open>\<open>children = sorted(node.children.keys())\<close>\<close>

definition sorted_keys :: "node list \<Rightarrow> addr \<Rightarrow> string list" where
  "sorted_keys h nd = sort (map fst (children (h ! nd)))"

primrec list_from ::
  "nat \<Rightarrow> node list \<Rightarrow> addr \<Rightarrow> nat \<Rightarrow> bool list \<Rightarrow> list_error + line list" where
  "list_from 0 h nd ind pre = Inl RecursionError"
| "list_from (Suc fuel) h nd ind pre =
     list_loop (list_from fuel h) h nd ind pre (length (sorted_keys h nd))
       (enumerate 0 (sorted_keys h nd))"

text \<open>\<open>list()\<close> with no node starts at the root; the state is returned as it is left.\<close>

definition list_tree ::
  "nat \<Rightarrow> directory_manager \<Rightarrow> (list_error + line list) \<times> directory_manager" where
  "list_tree fuel s = (list_from fuel (heap s) (root s) 0 [], s)"

section \<open>Well-formed heaps\<close>

text \<open>
  Every reference of a Python heap points to an allocated object: the root and every
  address stored in a \<open>children\<close> dictionary are indices of the store.
  \<open>heap_ext h h'\<close> says that \<open>h'\<close> keeps every object of \<open>h\<close> and every entry of
  every dictionary. \<open>add_dir\<close> is one allocation step of the loop of \<open>make_dirs\<close>.
\<close>

definition closed :: "node list \<Rightarrow> bool" where
  "closed h = list_all (\<lambda>n. list_all (\<lambda>(k, c). c < length h) (children n)) h"

definition heap_ok :: "directory_manager \<Rightarrow> bool" where
  "heap_ok s = (root s < length (heap s) \<and> closed (heap s))"

definition heap_ext :: "node list \<Rightarrow> node list \<Rightarrow> bool" where
  "heap_ext h h' =
     (length h \<le> length h' \<and>
      (\<forall>a k v. a < length h \<and> map_of (children (h ! a)) k = Some v \<longrightarrow>
         map_of (children (h' ! a)) k = Some v))"

definition add_dir :: "node list \<Rightarrow> addr \<Rightarrow> string \<Rightarrow> node list" where
  "add_dir h current part =
     set_children (h @ [Node part]) current
       (AList.update part (length h) (children ((h @ [Node part]) ! current)))"

text \<open>
  The store only ever holds names that passed \<open>_is_valid_path\<close>: \<open>names_ok\<close> says that no
  key of any dictionary is a rejected part.
\<close>

definition names_ok :: "node list \<Rightarrow> bool" where
  "names_ok h = list_all (\<lambda>n. list_all (\<lambda>(k, c). \<not> bad_part k) (children n)) h"

section \<open>Sequences of operations\<close>

text \<open>
  The test of \<open>delete\<close> and \<open>move\<close> that a path exists, the negation of
  \<open>parent is None or name not in parent.children\<close>.
\<close>

definition resolves :: "directory_manager \<Rightarrow> string \<Rightarrow> bool" where
  "resolves s path =
     (case get_node_and_parent s path of
        (None, node, target_name) \<Rightarrow> False
      | (Some parent, node, target_name) \<Rightarrow>
          map_of (children (heap s ! parent)) target_name \<noteq> None)"

text \<open>
  A session is a list of engine calls on one manager; \<open>Delete\<close> carries the line typed
  at the confirmation prompt, read only if the prompt appears. An exception ends the run.
\<close>

datatype command = Create string | Delete string string | Move string string

fun run :: "directory_manager \<Rightarrow> command list \<Rightarrow> py_error + directory_manager" where
  "run s [] = Inr s"
| "run s (Create path # cs) =
     (case create s path of Inl e \<Rightarrow> Inl e | Inr (rs, s') \<Rightarrow> run s' cs)"
| "run s (Delete path answer # cs) = run (snd (snd (delete s path answer))) cs"
| "run s (Move source destination # cs) = run (snd (move s source destination)) cs"

section \<open>Reading a listing\<close>

text \<open>
  \<open>tree_shaped n h a\<close>: below \<open>a\<close> the heap unfolds to a tree of height less than \<open>n\<close>, in
  which every dictionary has distinct keys and every node is stored under its own name.
\<close>

primrec tree_shaped :: "nat \<Rightarrow> node list \<Rightarrow> addr \<Rightarrow> bool" where
  "tree_shaped 0 h a = False"
| "tree_shaped (Suc n) h a =
     (a < length h \<and> distinct (map fst (children (h ! a))) \<and>
      list_all (\<lambda>(k, c). name (h ! c) = k \<and> tree_shaped n h c) (children (h ! a)))"

text \<open>
  In a printed listing the next sibling of a line is the next line of the same level that
  comes before any line of a lower level. \<open>siblings_sorted\<close> says that every line is
  strictly before its next sibling in the alphabet.
\<close>

fun next_sibling :: "nat \<Rightarrow> line list \<Rightarrow> line option" where
  "next_sibling d [] = None"
| "next_sibling d (l # ls) =
     (if indent l < d then None else if indent l = d then Some l else next_sibling d ls)"

fun siblings_sorted :: "line list \<Rightarrow> bool" where
  "siblings_sorted [] = True"
| "siblings_sorted (l # ls) =
     ((case next_sibling (indent l) ls of None \<Rightarrow> True | Some l' \<Rightarrow> shown l < shown l') \<and>
      siblings_sorted ls)"

text \<open>
  Reading a printed listing back. The line that encloses a line of level \<open>d\<close> is the
  latest earlier line of level \<open>d - 1\<close>. \<open>trail f stack ls\<close> gives, for each line of
  \<open>ls\<close>, the values of \<open>f\<close> along the lines that enclose it, from the outermost one down
  to the line itself; \<open>stack\<close> is the trail of the line before the first. With \<open>shown\<close>
  for \<open>f\<close> the trail of a line is the path of the directory it stands for.
\<close>

fun trail :: "(line \<Rightarrow> 'a) \<Rightarrow> 'a list \<Rightarrow> line list \<Rightarrow> 'a list list" where
  "trail f stack [] = []"
| "trail f stack (l # ls) =
     (take (indent l) stack @ [f l]) # trail f (take (indent l) stack @ [f l]) ls"

text \<open>\<open>lasts_ok\<close>: a line carries the last-sibling glyph exactly when it has no next sibling.\<close>

fun lasts_ok :: "line list \<Rightarrow> bool" where
  "lasts_ok [] = True"
| "lasts_ok (l # ls) = ((is_last l \<longleftrightarrow> next_sibling (indent l) ls = None) \<and> lasts_ok ls)"

text \<open>The paths of the directories below a node, and those that start with a name of \<open>K\<close>.\<close>

definition paths_below :: "node list \<Rightarrow> addr \<Rightarrow> string list set" where
  "paths_below h a = {q. q \<noteq> [] \<and> walk h a q \<noteq> None}"

definition paths_via :: "node list \<Rightarrow> addr \<Rightarrow> string set \<Rightarrow> string list set" where
  "paths_via h a K = {q. q \<noteq> [] \<and> hd q \<in> K \<and> walk h a q \<noteq> None}"

text \<open>
  \<open>layout h a K d p ls\<close>: \<open>ls\<close> is laid out as the listing, at level \<open>d\<close> and under the
  prefix \<open>p\<close>, of the children of \<open>a\<close> with a name in \<open>K\<close>. Its lines stand for exactly
  the directories below those children, each once, in the order of their paths; every
  line is at the level of its path; its prefix is the glyphs of the lines that enclose
  it; and the last-sibling glyphs are right.
\<close>

definition layout ::
  "node list \<Rightarrow> addr \<Rightarrow> string set \<Rightarrow> nat \<Rightarrow> bool list \<Rightarrow> line list \<Rightarrow> bool" where
  "layout h a K d p ls =
     ((\<forall>l \<in> set ls. d \<le> indent l) \<and> (ls = [] \<or> indent (hd ls) = d) \<and> lasts_ok ls \<and>
      trail is_last p ls = map (\<lambda>l. prefix l @ [is_last l]) ls \<and>
      (\<forall>base. length base = d \<longrightarrow>
         sorted_wrt (<) (trail shown base ls) \<and>
         set (trail shown base ls) = (\<lambda>q. base @ q) ` paths_via h a K \<and>
         map length (trail shown base ls) = map (\<lambda>l. Suc (indent l)) ls))"

section \<open>The tree below the root\<close>

text \<open>
  \<open>path_inv h r P N\<close>: \<open>P\<close> gives every node of the tree below \<open>r\<close> its one path from
  \<open>r\<close>, shorter than \<open>N\<close>. A child's path is its parent's path followed by the name it is
  stored under, which is its own name; no two nodes share a path; and every node with a
  path other than the root is a child of the node with the path one shorter.
\<close>

definition path_inv ::
  "node list \<Rightarrow> addr \<Rightarrow> (addr \<Rightarrow> string list option) \<Rightarrow> nat \<Rightarrow> bool" where
  "path_inv h r P N =
     (P r = Some [] \<and>
      (\<forall>a ps. P a = Some ps \<longrightarrow>
         a < length h \<and> length ps < N \<and> distinct (map fst (children (h ! a))) \<and>
         (\<forall>k c. (k, c) \<in> set (children (h ! a)) \<longrightarrow>
            P c = Some (ps @ [k]) \<and> name (h ! c) = k)) \<and>
      (\<forall>a b ps. P a = Some ps \<and> P b = Some ps \<longrightarrow> a = b) \<and>
      (\<forall>a ps x. P a = Some (ps @ [x]) \<longrightarrow>
         (\<exists>b. P b = Some ps \<and> map_of (children (h ! b)) x = Some a)))"

text \<open>\<open>under pm qs\<close>: the path \<open>qs\<close> starts with \<open>pm\<close>.\<close>

definition under :: "string list \<Rightarrow> string list \<Rightarrow> bool" where
  "under pm qs = (take (length pm) qs = pm)"

text \<open>
  The paths after a subtree has been cut off, and after it has been put elsewhere.
\<close>

definition erase ::
  "(addr \<Rightarrow> string list option) \<Rightarrow> string list \<Rightarrow> addr \<Rightarrow> string list option" where
  "erase P pm a =
     (case P a of None \<Rightarrow> None | Some qs \<Rightarrow> if under pm qs then None else Some qs)"

definition reroot ::
  "(addr \<Rightarrow> string list option) \<Rightarrow> string list \<Rightarrow> string list \<Rightarrow> addr \<Rightarrow>
   string list option" where
  "reroot P pm pn a =
     (case P a of
        None \<Rightarrow> None
      | Some qs \<Rightarrow> if under pm qs then Some (pn @ drop (length pm) qs) else Some qs)"

text \<open>\<open>tree_ok s\<close>: some assignment of paths makes the heap below the root a tree.\<close>

definition tree_ok :: "directory_manager \<Rightarrow> bool" where
  "tree_ok s = (\<exists>P N. path_inv (heap s) (root s) P N)"

section \<open>Facts about the string primitives\<close>

lemma py_split_nonempty: "py_split c s \<noteq> []"
  by (induction s) (auto split: list.splits)

lemma py_find_neg: "py_find c s < 0 \<longleftrightarrow> c \<notin> set s"
  by (induction s) (auto simp: Let_def)

lemma py_find_append:
  "c \<notin> set pre \<Longrightarrow> py_find c (pre @ c # post) = int (length pre)"
  by (induction pre) (auto simp: Let_def)

lemma py_find_skip_prefix:
  "c \<notin> set pre \<Longrightarrow> c \<in> set post \<Longrightarrow>
   py_find c (pre @ post) = int (length pre) + py_find c post"
proof (induction pre)
  case Nil
  then show ?case by simp
next
  case (Cons x pre)
  then have "\<not> py_find c (pre @ post) < 0" using py_find_neg[of c "pre @ post"] by simp
  with Cons show ?case by (auto simp: Let_def)
qed

lemma py_find_in_prefix:
  "c \<in> set pre \<Longrightarrow> py_find c (pre @ post) < int (length pre)"
proof (induction pre)
  case Nil
  then show ?case by simp
next
  case (Cons x pre)
  show ?case
  proof (cases "x = c")
    case True
    then show ?thesis by simp
  next
    case False
    with Cons have "py_find c (pre @ post) < int (length pre)" by simp
    with False show ?thesis by (simp add: Let_def)
  qed
qed

lemma py_rindex_last:
  "c \<notin> set rest \<Longrightarrow> py_rindex c (base @ c # rest) = Inr (length base)"
proof (induction base)
  case Nil
  have "py_rindex c rest = Inl ValueError" using Nil
    by (induction rest) (auto split: sum.splits)
  then show ?case by simp
next
  case (Cons x base)
  then show ?case by simp
qed

lemma py_rindex_total: "c \<in> set s \<Longrightarrow> \<exists>i. py_rindex c s = Inr i"
  by (induction s) (auto split: sum.splits)

lemma comma_pieces_no_comma:
  "CHR '','' \<notin> set s \<Longrightarrow> py_split CHR '','' s = [s]"
  by (induction s) auto

section \<open>Expansion of comma-separated paths\<close>

text \<open>
  C8. \<open>_expand_path_list\<close>: a comma-free path is returned alone; when the first comma
  stands before every separator (or there is none) the whole string is split on commas,
  each piece stripped and the empty ones dropped; when a separator stands before the
  first comma, everything up to and including the last separator is the shared base, put
  in front of each stripped, non-empty comma piece of the remainder. The two examples of
  the specification are evaluated.
\<close>

theorem expand_path_list_spec:
  "(CHR '','' \<notin> set p \<longrightarrow> expand_path_list p = Inr [p]) \<and>
   (p = pre @ CHR '','' # post \<and> CHR '','' \<notin> set pre \<and> CHR ''/'' \<notin> set pre \<longrightarrow>
      expand_path_list p = Inr (comma_pieces p)) \<and>
   (p = pre @ CHR '','' # post \<and> CHR '','' \<notin> set pre \<and> CHR ''/'' \<in> set pre \<and>
    p = base @ CHR ''/'' # rest \<and> CHR ''/'' \<notin> set rest \<longrightarrow>
      expand_path_list p = Inr (map (\<lambda>name. (base @ ''/'') @ name) (comma_pieces rest))) \<and>
   expand_path_list ''fruits,family'' = Inr [''fruits'', ''family''] \<and>
   expand_path_list ''fruits/citrus/lemon,lime'' =
     Inr [''fruits/citrus/lemon'', ''fruits/citrus/lime'']"
proof (intro conjI impI)
  show "expand_path_list p = Inr [p]" if "CHR '','' \<notin> set p"
    using that by (simp add: expand_path_list_def)
next
  assume a: "p = pre @ CHR '','' # post \<and> CHR '','' \<notin> set pre \<and> CHR ''/'' \<notin> set pre"
  then have comma: "CHR '','' \<in> set p" by auto
  have fc: "py_find CHR '','' p = int (length pre)"
    using a py_find_append[of "CHR '',''" pre post] by simp
  show "expand_path_list p = Inr (comma_pieces p)"
  proof (cases "CHR ''/'' \<in> set p")
    case False
    with comma show ?thesis by (simp add: expand_path_list_def)
  next
    case True
    with a have mem: "CHR ''/'' \<in> set post" by auto
    then have "\<not> py_find CHR ''/'' post < 0" using py_find_neg[of "CHR ''/''" post] by simp
    then have "0 < py_find CHR ''/'' (CHR '','' # post)" by (simp add: Let_def)
    moreover have "py_find CHR ''/'' p = int (length pre) + py_find CHR ''/'' (CHR '','' # post)"
      using a mem py_find_skip_prefix[of "CHR ''/''" pre "CHR '','' # post"] by simp
    ultimately have "py_find CHR '','' p < py_find CHR ''/'' p" using fc by simp
    with comma show ?thesis by (simp add: expand_path_list_def)
  qed
next
  assume a: "p = pre @ CHR '','' # post \<and> CHR '','' \<notin> set pre \<and> CHR ''/'' \<in> set pre \<and>
    p = base @ CHR ''/'' # rest \<and> CHR ''/'' \<notin> set rest"
  then have p1: "p = pre @ CHR '','' # post" and nc: "CHR '','' \<notin> set pre"
    and sl: "CHR ''/'' \<in> set pre" and p2: "p = base @ CHR ''/'' # rest"
    and ns: "CHR ''/'' \<notin> set rest" by blast+
  have comma: "CHR '','' \<in> set p" and slash: "CHR ''/'' \<in> set p"
    by (simp_all add: p1 sl)
  have fc: "py_find CHR '','' p = int (length pre)"
    by (simp add: p1 py_find_append[OF nc])
  have "py_find CHR ''/'' p < int (length pre)"
    by (simp add: p1 py_find_in_prefix[OF sl])
  with fc have nlt: "\<not> py_find CHR '','' p < py_find CHR ''/'' p" by simp
  have ri: "py_rindex CHR ''/'' p = Inr (length base)"
    by (simp add: p2 py_rindex_last[OF ns])
  have tk: "take (length base + 1) p = base @ ''/''" by (simp add: p2)
  have dr: "drop (length (base @ ''/'')) p = rest" by (simp add: p2)
  have "expand_path_list p =
      Inr (map (\<lambda>name. take (length base + 1) p @ py_strip name)
            (filter (\<lambda>name. py_strip name \<noteq> [])
               (py_split CHR '','' (drop (length (take (length base + 1) p)) p))))"
    unfolding expand_path_list_def using comma slash nlt by (simp add: ri Let_def)
  also have "\<dots> = Inr (map (\<lambda>name. (base @ ''/'') @ name) (comma_pieces rest))"
    unfolding tk dr by (simp add: comma_pieces_def comp_def)
  finally show "expand_path_list p = Inr (map (\<lambda>name. (base @ ''/'') @ name) (comma_pieces rest))" .
next
  show "expand_path_list ''fruits,family'' = Inr [''fruits'', ''family'']"
    by (simp add: expand_path_list_def comma_pieces_def py_strip_def is_space_def)
next
  show "expand_path_list ''fruits/citrus/lemon,lime'' =
     Inr [''fruits/citrus/lemon'', ''fruits/citrus/lime'']"
    by (simp add: expand_path_list_def comma_pieces_def py_strip_def is_space_def Let_def)
qed

theorem expand_path_list_spec_witness:
  "expand_path_list ''a/b'' = Inr [''a/b''] \<and>
   expand_path_list ''x, y/z'' = Inr [''x'', ''y/z''] \<and>
   expand_path_list ''a/b,c/d, e'' = Inr [''a/b,c/d'', ''a/b,c/e'']"
  using expand_path_list_spec[of "''a/b''"]
    expand_path_list_spec[of "''x, y/z''" "''x''" "'' y/z''"]
    expand_path_list_spec[of "''a/b,c/d, e''" "''a/b''" "''c/d, e''" "''a/b,c''" "''d, e''"]
  by (simp add: comma_pieces_def py_strip_def is_space_def)

section \<open>Facts about the heap and the directory loop\<close>

lemma closed_lookup:
  "closed h \<Longrightarrow> a < length h \<Longrightarrow> map_of (children (h ! a)) k = Some c \<Longrightarrow> c < length h"
  by (auto simp: closed_def list_all_iff dest!: map_of_SomeD nth_mem)

lemma closedI:
  "(\<And>a k c. a < length h \<Longrightarrow> (k, c) \<in> set (children (h ! a)) \<Longrightarrow> c < length h) \<Longrightarrow> closed h"
  unfolding closed_def list_all_iff
proof (intro ballI)
  fix n x
  assume r: "\<And>a k c. a < length h \<Longrightarrow> (k, c) \<in> set (children (h ! a)) \<Longrightarrow> c < length h"
    and n: "n \<in> set h" and x: "x \<in> set (children n)"
  from n obtain a where "a < length h" "h ! a = n" by (auto simp: in_set_conv_nth)
  with r[of a "fst x" "snd x"] x show "case x of (k, c) \<Rightarrow> c < length h"
    by (simp add: case_prod_beta)
qed

lemma closedD:
  "closed h \<Longrightarrow> a < length h \<Longrightarrow> (k, c) \<in> set (children (h ! a)) \<Longrightarrow> c < length h"
  by (auto simp: closed_def list_all_iff dest!: nth_mem)

lemma set_update_subset: "set (AList.update k v al) \<subseteq> insert (k, v) (set al)"
  by (induction al) auto

lemma set_delete_subset: "set (AList.delete k al) \<subseteq> set al"
  by (auto simp: AList.delete_eq)

lemma length_set_children [simp]: "length (set_children h a cs) = length h"
  by (simp add: set_children_def)

lemma children_set_children:
  "b < length h \<Longrightarrow> children (set_children h a cs ! b) = (if b = a then cs else children (h ! b))"
  by (simp add: set_children_def nth_list_update)

lemma name_set_children:
  "name (set_children h a cs ! b) = name (h ! b)"
  by (cases "a < length h") (simp_all add: set_children_def nth_list_update list_update_beyond)

lemma make_dirs_None:
  "map_of (children (h ! current)) part = None \<Longrightarrow>
   make_dirs h current (part # parts) = make_dirs (add_dir h current part) (length h) parts"
  by (simp add: add_dir_def Let_def)

lemma length_add_dir [simp]: "length (add_dir h c p) = Suc (length h)"
  by (simp add: add_dir_def)

lemma children_add_dir:
  "c < length h \<Longrightarrow> b \<le> length h \<Longrightarrow>
   children (add_dir h c p ! b) =
     (if b = c then AList.update p (length h) (children (h ! c))
      else if b = length h then [] else children (h ! b))"
  by (auto simp: add_dir_def children_set_children nth_append Node_def)

lemma closed_add_dir:
  assumes "closed h" "c < length h"
  shows "closed (add_dir h c p)"
proof (rule closedI)
  fix a k v
  assume a: "a < length (add_dir h c p)" and kv: "(k, v) \<in> set (children (add_dir h c p ! a))"
  from a have le: "a \<le> length h" by simp
  show "v < length (add_dir h c p)"
  proof (cases "a = c")
    case True
    with kv assms le have "(k, v) \<in> insert (p, length h) (set (children (h ! c)))"
      using set_update_subset[of p "length h" "children (h ! c)"]
      by (auto simp: children_add_dir)
    then show ?thesis using closedD[OF assms(1) assms(2)] by (auto simp: less_Suc_eq)
  next
    case False
    show ?thesis
    proof (cases "a = length h")
      case True
      with kv assms False show ?thesis by (simp add: children_add_dir)
    next
      case F2: False
      with a have "a < length h" by simp
      with kv assms False F2 have "(k, v) \<in> set (children (h ! a))"
        by (simp add: children_add_dir)
      with \<open>a < length h\<close> assms show ?thesis using closedD[of h a k v] by simp
    qed
  qed
qed

lemma heap_ext_refl: "heap_ext h h"
  by (simp add: heap_ext_def)

lemma heap_ext_trans: "heap_ext h1 h2 \<Longrightarrow> heap_ext h2 h3 \<Longrightarrow> heap_ext h1 h3"
  unfolding heap_ext_def by (meson le_trans less_le_trans)

lemma heap_ext_add_dir:
  assumes "c < length h" "map_of (children (h ! c)) p = None"
  shows "heap_ext h (add_dir h c p)"
  unfolding heap_ext_def
proof (intro conjI allI impI)
  show "length h \<le> length (add_dir h c p)" by simp
next
  fix a k v
  assume "a < length h \<and> map_of (children (h ! a)) k = Some v"
  then show "map_of (children (add_dir h c p ! a)) k = Some v"
    using assms by (auto simp: children_add_dir update_conv')
qed

lemma make_dirs_props:
  "closed h \<Longrightarrow> current < length h \<Longrightarrow> make_dirs h current parts = (h', c') \<Longrightarrow>
   closed h' \<and> c' < length h' \<and> heap_ext h h' \<and> walk h' current parts = Some c'"
proof (induction parts arbitrary: h current)
  case Nil
  then show ?case by (simp add: heap_ext_refl)
next
  case (Cons part parts)
  show ?case
  proof (cases "map_of (children (h ! current)) part")
    case None
    let ?h = "add_dir h current part"
    from Cons.prems(3) have md: "make_dirs ?h (length h) parts = (h', c')"
      unfolding make_dirs_None[OF None] .
    have cl: "closed ?h" using Cons.prems by (simp add: closed_add_dir)
    from Cons.IH[OF cl _ md]
    have ih: "closed h'" "c' < length h'" "heap_ext ?h h'" "walk h' (length h) parts = Some c'"
      by simp_all
    have "map_of (children (?h ! current)) part = Some (length h)"
      using Cons.prems by (simp add: children_add_dir update_conv')
    with ih(3) Cons.prems have "map_of (children (h' ! current)) part = Some (length h)"
      by (simp add: heap_ext_def)
    with ih show ?thesis
      using heap_ext_trans[OF heap_ext_add_dir[OF Cons.prems(2) None] ih(3)] by simp
  next
    case (Some child)
    with Cons.prems have md: "make_dirs h child parts = (h', c')" by simp
    have "child < length h" using closed_lookup[OF Cons.prems(1,2) Some] .
    from Cons.IH[OF Cons.prems(1) this md]
    have ih: "closed h'" "c' < length h'" "heap_ext h h'" "walk h' child parts = Some c'"
      by simp_all
    from ih(3) Some Cons.prems have "map_of (children (h' ! current)) part = Some child"
      by (simp add: heap_ext_def)
    with ih show ?thesis by simp
  qed
qed

lemma walk_make_dirs: "walk h current parts = Some c \<Longrightarrow> make_dirs h current parts = (h, c)"
  by (induction parts arbitrary: current) (auto split: option.splits)

lemma walk_ext:
  "heap_ext h h' \<Longrightarrow> closed h \<Longrightarrow> current < length h \<Longrightarrow> walk h current parts = Some c \<Longrightarrow>
   walk h' current parts = Some c"
proof (induction parts arbitrary: current)
  case Nil
  then show ?case by simp
next
  case (Cons part parts)
  from Cons.prems obtain child where ch: "map_of (children (h ! current)) part = Some child"
    and w: "walk h child parts = Some c" by (auto split: option.splits)
  have "child < length h" using closed_lookup[OF Cons.prems(2,3) ch] .
  from Cons.IH[OF Cons.prems(1,2) this w] have "walk h' child parts = Some c" .
  moreover from ch Cons.prems have "map_of (children (h' ! current)) part = Some child"
    by (simp add: heap_ext_def)
  ultimately show ?case by simp
qed

lemma walk_append:
  "walk h current (ps @ [p]) =
     (case walk h current ps of None \<Rightarrow> None | Some c \<Rightarrow> map_of (children (h ! c)) p)"
  by (induction ps arbitrary: current) (auto split: option.splits)

text \<open>Once a directory has been allocated, the loop ends in an empty one.\<close>

lemma make_dirs_from_empty:
  "children (h ! current) = [] \<Longrightarrow> current < length h \<Longrightarrow>
   make_dirs h current parts = (h', c') \<Longrightarrow> children (h' ! c') = [] \<and> c' < length h'"
proof (induction parts arbitrary: h current)
  case Nil
  then show ?case by simp
next
  case (Cons part parts)
  let ?h = "add_dir h current part"
  from Cons.prems(1) have None: "map_of (children (h ! current)) part = None" by simp
  from Cons.prems(3) have md: "make_dirs ?h (length h) parts = (h', c')"
    unfolding make_dirs_None[OF None] .
  have "children (?h ! length h) = []" using Cons.prems by (simp add: children_add_dir)
  from Cons.IH[OF this _ md] show ?case by simp
qed

lemma make_dirs_changed:
  "closed h \<Longrightarrow> current < length h \<Longrightarrow> make_dirs h current parts = (h', c') \<Longrightarrow>
   h' = h \<or> children (h' ! c') = []"
proof (induction parts arbitrary: current)
  case Nil
  then show ?case by simp
next
  case (Cons part parts)
  show ?case
  proof (cases "map_of (children (h ! current)) part")
    case None
    let ?h = "add_dir h current part"
    from Cons.prems(3) have md: "make_dirs ?h (length h) parts = (h', c')"
      unfolding make_dirs_None[OF None] .
    have "children (?h ! length h) = []" using Cons.prems by (simp add: children_add_dir)
    from make_dirs_from_empty[OF this _ md] show ?thesis by simp
  next
    case (Some child)
    with Cons.prems have md: "make_dirs h child parts = (h', c')" by simp
    have "child < length h" using closed_lookup[OF Cons.prems(1,2) Some] .
    from Cons.IH[OF Cons.prems(1) this md] show ?thesis .
  qed
qed

lemma names_okI:
  "(\<And>a k c. a < length h \<Longrightarrow> (k, c) \<in> set (children (h ! a)) \<Longrightarrow> \<not> bad_part k) \<Longrightarrow> names_ok h"
  unfolding names_ok_def list_all_iff
proof (intro ballI)
  fix n x
  assume r: "\<And>a k c. a < length h \<Longrightarrow> (k, c) \<in> set (children (h ! a)) \<Longrightarrow> \<not> bad_part k"
    and n: "n \<in> set h" and x: "x \<in> set (children n)"
  from n obtain a where "a < length h" "h ! a = n" by (auto simp: in_set_conv_nth)
  with r[of a "fst x" "snd x"] x show "case x of (k, c) \<Rightarrow> \<not> bad_part k"
    by (simp add: case_prod_beta)
qed

lemma names_okD:
  "names_ok h \<Longrightarrow> a < length h \<Longrightarrow> (k, c) \<in> set (children (h ! a)) \<Longrightarrow> \<not> bad_part k"
  by (auto simp: names_ok_def list_all_iff dest!: nth_mem)

lemma closed_set_children:
  assumes "closed h" "\<And>k c. (k, c) \<in> set cs \<Longrightarrow> c < length h"
  shows "closed (set_children h a cs)"
proof (rule closedI)
  fix b k c
  assume b: "b < length (set_children h a cs)"
    and kc: "(k, c) \<in> set (children (set_children h a cs ! b))"
  from b have bl: "b < length h" by simp
  show "c < length (set_children h a cs)"
  proof (cases "b = a")
    case True
    with kc bl assms(2) show ?thesis by (simp add: children_set_children)
  next
    case False
    with kc bl closedD[OF assms(1) bl] show ?thesis by (simp add: children_set_children)
  qed
qed

lemma names_ok_set_children:
  assumes "names_ok h" "\<And>k c. (k, c) \<in> set cs \<Longrightarrow> \<not> bad_part k"
  shows "names_ok (set_children h a cs)"
proof (rule names_okI)
  fix b k c
  assume b: "b < length (set_children h a cs)"
    and kc: "(k, c) \<in> set (children (set_children h a cs ! b))"
  from b have bl: "b < length h" by simp
  show "\<not> bad_part k"
  proof (cases "b = a")
    case True
    with kc bl assms(2) show ?thesis by (simp add: children_set_children)
  next
    case False
    with kc bl names_okD[OF assms(1) bl] show ?thesis by (simp add: children_set_children)
  qed
qed

lemma names_ok_add_dir:
  assumes "names_ok h" "c < length h" "\<not> bad_part p"
  shows "names_ok (add_dir h c p)"
proof (rule names_okI)
  fix a k v
  assume a: "a < length (add_dir h c p)" and kv: "(k, v) \<in> set (children (add_dir h c p ! a))"
  from a have le: "a \<le> length h" by simp
  show "\<not> bad_part k"
  proof (cases "a = c")
    case True
    with kv assms le have "(k, v) \<in> insert (p, length h) (set (children (h ! c)))"
      using set_update_subset[of p "length h" "children (h ! c)"]
      by (auto simp: children_add_dir)
    then show ?thesis using names_okD[OF assms(1) assms(2)] assms(3) by auto
  next
    case False
    show ?thesis
    proof (cases "a = length h")
      case True
      with kv assms False show ?thesis by (simp add: children_add_dir)
    next
      case F2: False
      with a have al: "a < length h" by simp
      with kv assms False F2 have "(k, v) \<in> set (children (h ! a))"
        by (simp add: children_add_dir)
      with names_okD[OF assms(1) al] show ?thesis by simp
    qed
  qed
qed

lemma is_valid_parts_iff: "is_valid_parts ps \<longleftrightarrow> (\<forall>p \<in> set ps. \<not> bad_part p)"
  by (induction ps) auto

lemma make_dirs_names_ok:
  "closed h \<Longrightarrow> names_ok h \<Longrightarrow> current < length h \<Longrightarrow> is_valid_parts parts \<Longrightarrow>
   make_dirs h current parts = (h', c') \<Longrightarrow> names_ok h'"
proof (induction parts arbitrary: h current)
  case Nil
  then show ?case by simp
next
  case (Cons part parts)
  from Cons.prems(4) have ok: "\<not> bad_part part" and rest: "is_valid_parts parts"
    by (simp_all split: if_splits)
  show ?case
  proof (cases "map_of (children (h ! current)) part")
    case None
    let ?h = "add_dir h current part"
    from Cons.prems(5) have md: "make_dirs ?h (length h) parts = (h', c')"
      unfolding make_dirs_None[OF None] .
    show ?thesis
      using Cons.IH[OF closed_add_dir[OF Cons.prems(1,3)]
          names_ok_add_dir[OF Cons.prems(2,3) ok] _ rest md] by simp
  next
    case (Some child)
    with Cons.prems have md: "make_dirs h child parts = (h', c')" by simp
    have "child < length h" using closed_lookup[OF Cons.prems(1,3) Some] .
    from Cons.IH[OF Cons.prems(1,2) this rest md] show ?thesis .
  qed
qed

lemma walk_valid:
  "closed h \<Longrightarrow> current < length h \<Longrightarrow> walk h current parts = Some c \<Longrightarrow> c < length h"
proof (induction parts arbitrary: current)
  case Nil
  then show ?case by simp
next
  case (Cons part parts)
  from Cons.prems obtain child where ch: "map_of (children (h ! current)) part = Some child"
    and w: "walk h child parts = Some c" by (auto split: option.splits)
  have "child < length h" using closed_lookup[OF Cons.prems(1,2) ch] .
  from Cons.IH[OF Cons.prems(1) this w] show ?case .
qed

lemma walk_names:
  "closed h \<Longrightarrow> names_ok h \<Longrightarrow> current < length h \<Longrightarrow> walk h current parts = Some c \<Longrightarrow>
   is_valid_parts parts"
proof (induction parts arbitrary: current)
  case Nil
  then show ?case by simp
next
  case (Cons part parts)
  from Cons.prems obtain child where ch: "map_of (children (h ! current)) part = Some child"
    and w: "walk h child parts = Some c" by (auto split: option.splits)
  have "child < length h" using closed_lookup[OF Cons.prems(1,3) ch] .
  from Cons.IH[OF Cons.prems(1,2) this w] have "is_valid_parts parts" .
  moreover have "\<not> bad_part part"
    using names_okD[OF Cons.prems(2,3) map_of_SomeD[OF ch]] .
  ultimately show ?case by simp
qed

text \<open>What it means for a path to resolve.\<close>

lemma resolves_iff:
  "resolves s path \<longleftrightarrow>
     path_parts path \<noteq> [] \<and> walk (heap s) (root s) (path_parts path) \<noteq> None"
proof (cases "path_parts path = []")
  case True
  then show ?thesis by (simp add: resolves_def get_node_and_parent_def)
next
  case False
  then have ne: "path \<noteq> []" "path \<noteq> ''/''" by (auto simp: path_parts_def)
  define ps where "ps = path_parts path"
  from False have sp: "ps = butlast ps @ [last ps]" by (simp add: ps_def)
  have w: "walk (heap s) (root s) ps =
      (case walk (heap s) (root s) (butlast ps) of
         None \<Rightarrow> None
       | Some c \<Rightarrow> map_of (children (heap s ! c)) (last ps))"
    using walk_append[of "heap s" "root s" "butlast ps" "last ps"] sp by simp
  have "resolves s path \<longleftrightarrow> walk (heap s) (root s) ps \<noteq> None"
    unfolding w using False ne
    by (auto simp: resolves_def get_node_and_parent_def Let_def ps_def split: option.splits)
  with False show ?thesis by (simp add: ps_def)
qed

lemma resolvesD:
  assumes "resolves s path"
  obtains parent nd where "path_parts path \<noteq> []"
    "walk (heap s) (root s) (butlast (path_parts path)) = Some parent"
    "map_of (children (heap s ! parent)) (last (path_parts path)) = Some nd"
    "get_node_and_parent s path = (Some parent, Some nd, last (path_parts path))"
  using assms
  by (auto simp: resolves_def get_node_and_parent_def Let_def split: option.splits if_splits)

lemma zip_all_eq_take:
  "length xs \<le> length ys \<Longrightarrow> list_all (\<lambda>(p, c). p = c) (zip xs ys) = (take (length xs) ys = xs)"
proof (induction xs arbitrary: ys)
  case Nil
  then show ?case by simp
next
  case (Cons x xs)
  then show ?case by (cases ys) auto
qed

lemma is_subdirectory_iff:
  "is_subdirectory a b \<longleftrightarrow> (\<exists>e. e \<noteq> [] \<and> path_parts b = path_parts a @ e)"
proof
  assume "is_subdirectory a b"
  then have l: "length (path_parts a) < length (path_parts b)"
    and t: "take (length (path_parts a)) (path_parts b) = path_parts a"
    by (auto simp: is_subdirectory_def Let_def zip_all_eq_take split: if_splits)
  have "path_parts b = path_parts a @ drop (length (path_parts a)) (path_parts b)"
    using t append_take_drop_id[of "length (path_parts a)" "path_parts b"] by simp
  moreover have "drop (length (path_parts a)) (path_parts b) \<noteq> []" using l by simp
  ultimately show "\<exists>e. e \<noteq> [] \<and> path_parts b = path_parts a @ e" by blast
next
  assume "\<exists>e. e \<noteq> [] \<and> path_parts b = path_parts a @ e"
  then obtain e where "e \<noteq> []" "path_parts b = path_parts a @ e" by blast
  then show "is_subdirectory a b"
    by (simp add: is_subdirectory_def Let_def zip_all_eq_take)
qed

section \<open>What every session preserves\<close>

lemma gnp_SomeD:
  assumes "get_node_and_parent s path = (Some sp, nd, nm)"
  shows "path_parts path \<noteq> []"
    and "walk (heap s) (root s) (butlast (path_parts path)) = Some sp"
    and "nm = last (path_parts path)"
    and "nd = map_of (children (heap s ! sp)) nm"
  using assms
  by (auto simp: get_node_and_parent_def Let_def split: option.splits if_splits)

lemma is_valid_path_parts: "is_valid_path p \<Longrightarrow> is_valid_parts (path_parts p)"
  by (simp add: is_valid_path_def split: if_splits)

lemma create_paths_inv:
  "closed h \<Longrightarrow> names_ok h \<Longrightarrow> r < length h \<Longrightarrow> create_paths h r paths = (rs, h') \<Longrightarrow>
   closed h' \<and> names_ok h' \<and> heap_ext h h'"
proof (induction paths arbitrary: h rs)
  case Nil
  then show ?case by (simp add: heap_ext_refl)
next
  case (Cons p paths)
  show ?case
  proof (cases "is_valid_path p")
    case False
    with Cons.prems(4) obtain rs' where "create_paths h r paths = (rs', h')"
      by (auto split: prod.splits)
    from Cons.IH[OF Cons.prems(1,2,3) this] show ?thesis .
  next
    case True
    obtain h1 c1 where md: "make_dirs h r (path_parts p) = (h1, c1)" by force
    with True Cons.prems(4) obtain rs' where cp: "create_paths h1 r paths = (rs', h')"
      by (auto split: prod.splits)
    from make_dirs_props[OF Cons.prems(1,3) md]
    have p1: "closed h1" "heap_ext h h1" by simp_all
    have n1: "names_ok h1"
      using make_dirs_names_ok[OF Cons.prems(1,2,3) is_valid_path_parts[OF True] md] .
    from p1(2) Cons.prems(3) have r1: "r < length h1" by (simp add: heap_ext_def)
    from Cons.IH[OF p1(1) n1 r1 cp] heap_ext_trans[OF p1(2)] show ?thesis by blast
  qed
qed

lemma create_inv:
  assumes "heap_ok s" "names_ok (heap s)" "create s path = Inr (rs, s')"
  shows "heap_ok s' \<and> names_ok (heap s')"
proof -
  from assms(3) obtain paths h' where cp: "create_paths (heap s) (root s) paths = (rs, h')"
    and s': "s' = s\<lparr>heap := h'\<rparr>"
    by (auto simp: create_def split: sum.splits prod.splits)
  from assms(1) have c: "closed (heap s)" and r: "root s < length (heap s)"
    by (simp_all add: heap_ok_def)
  from create_paths_inv[OF c assms(2) r cp] r show ?thesis
    by (auto simp: s' heap_ok_def heap_ext_def)
qed

lemma delete_inv:
  assumes "heap_ok s" "names_ok (heap s)"
  shows "heap_ok (snd (snd (delete s path answer))) \<and>
         names_ok (heap (snd (snd (delete s path answer))))"
proof -
  from assms(1) have c: "closed (heap s)" and r: "root s < length (heap s)"
    by (simp_all add: heap_ok_def)
  have e: "closed (set_children (heap s) a []) \<and> names_ok (set_children (heap s) a [])" for a
    using closed_set_children[OF c, of "[]" a] names_ok_set_children[OF assms(2), of "[]" a]
    by simp
  have d: "closed (set_children (heap s) a (AList.delete k (children (heap s ! a)))) \<and>
           names_ok (set_children (heap s) a (AList.delete k (children (heap s ! a))))"
    if "a < length (heap s)" for a k
    using closed_set_children[OF c, of "AList.delete k (children (heap s ! a))" a]
      names_ok_set_children[OF assms(2), of "AList.delete k (children (heap s ! a))" a]
      closedD[OF c that] names_okD[OF assms(2) that]
      set_delete_subset[of k "children (heap s ! a)"]
    by blast
  have p: "a < length (heap s)" if "get_node_and_parent s path = (Some a, nd, nm)" for a nd nm
    using walk_valid[OF c r gnp_SomeD(2)[OF that]] .
  show ?thesis
    using assms e d p r
    by (auto simp: delete_def heap_ok_def split: option.splits prod.splits)
qed

lemma move_inv:
  assumes "heap_ok s" "names_ok (heap s)"
  shows "heap_ok (snd (move s source destination)) \<and>
         names_ok (heap (snd (move s source destination)))"
proof -
  from assms(1) have c: "closed (heap s)" and r: "root s < length (heap s)"
    by (simp_all add: heap_ok_def)
  show ?thesis
  proof (cases "fst (move s source destination) \<in> {NameCollision, Moved}")
    case False
    then have "snd (move s source destination) = s"
      by (auto simp: move_def Let_def split: option.splits prod.splits if_splits)
    with assms show ?thesis by simp
  next
    case True
    then obtain sp nd nm ntm where v: "is_valid_path destination"
      and g: "get_node_and_parent s source = (Some sp, nd, nm)"
      and l: "map_of (children (heap s ! sp)) nm = Some ntm"
      by (auto simp: move_def Let_def split: option.splits prod.splits if_splits)
    obtain h1 cur where md: "make_dirs (heap s) (root s) (path_parts destination) = (h1, cur)"
      by force
    have spl: "sp < length (heap s)" using walk_valid[OF c r gnp_SomeD(2)[OF g]] .
    have ntm: "ntm < length (heap s)" using closed_lookup[OF c spl l] .
    have nmok: "\<not> bad_part nm" using names_okD[OF assms(2) spl map_of_SomeD[OF l]] .
    from make_dirs_props[OF c r md]
    have p1: "closed h1" "cur < length h1" "heap_ext (heap s) h1" by simp_all
    have n1: "names_ok h1"
      using make_dirs_names_ok[OF c assms(2) r is_valid_path_parts[OF v] md] .
    from p1(3) have len: "length (heap s) \<le> length h1" by (simp add: heap_ext_def)
    let ?h2 = "set_children h1 cur (AList.update nm ntm (children (h1 ! cur)))"
    let ?h3 = "set_children ?h2 sp (AList.delete nm (children (?h2 ! sp)))"
    have c2: "closed ?h2"
    proof (rule closed_set_children[OF p1(1)])
      fix k a assume "(k, a) \<in> set (AList.update nm ntm (children (h1 ! cur)))"
      then have "(k, a) = (nm, ntm) \<or> (k, a) \<in> set (children (h1 ! cur))"
        using set_update_subset[of nm ntm "children (h1 ! cur)"] by auto
      then show "a < length h1" using ntm len closedD[OF p1(1,2)] by auto
    qed
    have n2: "names_ok ?h2"
    proof (rule names_ok_set_children[OF n1])
      fix k a assume "(k, a) \<in> set (AList.update nm ntm (children (h1 ! cur)))"
      then have "(k, a) = (nm, ntm) \<or> (k, a) \<in> set (children (h1 ! cur))"
        using set_update_subset[of nm ntm "children (h1 ! cur)"] by auto
      then show "\<not> bad_part k" using nmok names_okD[OF n1 p1(2)] by auto
    qed
    have sp2: "sp < length ?h2" using spl len by simp
    have c3: "closed ?h3"
    proof (rule closed_set_children[OF c2])
      fix k a assume "(k, a) \<in> set (AList.delete nm (children (?h2 ! sp)))"
      then have "(k, a) \<in> set (children (?h2 ! sp))"
        using set_delete_subset[of nm "children (?h2 ! sp)"] by auto
      then show "a < length ?h2" using closedD[OF c2 sp2] by blast
    qed
    have n3: "names_ok ?h3"
    proof (rule names_ok_set_children[OF n2])
      fix k a assume "(k, a) \<in> set (AList.delete nm (children (?h2 ! sp)))"
      then have "(k, a) \<in> set (children (?h2 ! sp))"
        using set_delete_subset[of nm "children (?h2 ! sp)"] by auto
      then show "\<not> bad_part k" using names_okD[OF n2 sp2] by blast
    qed
    have "snd (move s source destination) = s\<lparr>heap := h1\<rparr> \<or>
          snd (move s source destination) = s\<lparr>heap := ?h3\<rparr>"
      using True g l md
      by (auto simp: move_def Let_def split: option.splits prod.splits if_splits)
    then show ?thesis
      using p1(1) n1 c3 n3 r len by (auto simp: heap_ok_def)
  qed
qed

lemma init_inv: "heap_ok init \<and> names_ok (heap init)"
  by (simp add: init_def heap_ok_def closed_def names_ok_def Node_def)

lemma run_inv:
  "heap_ok s \<Longrightarrow> names_ok (heap s) \<Longrightarrow> run s cs = Inr s' \<Longrightarrow>
   heap_ok s' \<and> names_ok (heap s')"
proof (induction cs arbitrary: s)
  case Nil
  then show ?case by simp
next
  case (Cons c cs)
  show ?case
  proof (cases c)
    case (Create p)
    with Cons.prems(3) obtain rs s1 where c1: "create s p = Inr (rs, s1)"
      and r1: "run s1 cs = Inr s'" by (auto split: sum.splits)
    from create_inv[OF Cons.prems(1,2) c1] Cons.IH[OF _ _ r1] show ?thesis by blast
  next
    case (Delete p a)
    with Cons.prems(3) have r1: "run (snd (snd (delete s p a))) cs = Inr s'" by simp
    from delete_inv[OF Cons.prems(1,2), of p a] Cons.IH[OF _ _ r1] show ?thesis by blast
  next
    case (Move a b)
    with Cons.prems(3) have r1: "run (snd (move s a b)) cs = Inr s'" by simp
    from move_inv[OF Cons.prems(1,2), of a b] Cons.IH[OF _ _ r1] show ?thesis by blast
  qed
qed

lemmas engine_defs =
  create_def expand_path_list_def comma_pieces_def py_strip_def is_space_def Let_def
  is_valid_path_def path_parts_def bad_part_def reserved_chars_def init_def Node_def
  set_children_def move_def delete_def get_node_and_parent_def is_subdirectory_def
  confirm_deletion_def py_lower_def lower_char_def resolves_def

lemma path_parts_neq: "path_parts a \<noteq> path_parts b \<Longrightarrow> a \<noteq> b"
  by auto

section \<open>The checks of \<open>move\<close>\<close>

text \<open>
  C4. The outcome of \<open>move\<close> is fixed by the first check that fails, in this order, and
  the state is returned untouched: \<open>InvalidName\<close> when either string fails
  \<open>_is_valid_path\<close>; else \<open>IdenticalPaths\<close> when the two strings are equal; else
  \<open>SourceNotFound\<close> when the source does not resolve (parent present and name present
  among its children); else \<open>DestinationIsDescendant\<close> when \<open>_is_subdirectory\<close> holds.
  When all four checks pass, the outcome is none of these four.
\<close>

theorem move_check_order:
  "(\<not> is_valid_path source \<or> \<not> is_valid_path destination \<longrightarrow>
      move s source destination = (InvalidName, s)) \<and>
   (is_valid_path source \<and> is_valid_path destination \<and> source = destination \<longrightarrow>
      move s source destination = (IdenticalPaths, s)) \<and>
   (is_valid_path source \<and> is_valid_path destination \<and> source \<noteq> destination \<and>
    \<not> resolves s source \<longrightarrow>
      move s source destination = (SourceNotFound, s)) \<and>
   (is_valid_path source \<and> is_valid_path destination \<and> source \<noteq> destination \<and>
    resolves s source \<and> is_subdirectory source destination \<longrightarrow>
      move s source destination = (DestinationIsDescendant, s)) \<and>
   (is_valid_path source \<and> is_valid_path destination \<and> source \<noteq> destination \<and>
    resolves s source \<and> \<not> is_subdirectory source destination \<longrightarrow>
      fst (move s source destination) = NameCollision \<or>
      fst (move s source destination) = Moved)"
  by (auto simp: move_def resolves_def Let_def split: option.splits prod.splits)

theorem move_check_order_witness:
  "move init ''a:b'' ''c'' = (InvalidName, init) \<and>
   move init ''a'' ''a'' = (IdenticalPaths, init) \<and>
   move init ''a'' ''b'' = (SourceNotFound, init) \<and>
   move \<lparr>heap = [\<lparr>name = [], children = [(''a'', 1)]\<rparr>, \<lparr>name = ''a'', children = []\<rparr>],
         root = 0\<rparr> ''a'' ''a/b'' =
     (DestinationIsDescendant,
      \<lparr>heap = [\<lparr>name = [], children = [(''a'', 1)]\<rparr>, \<lparr>name = ''a'', children = []\<rparr>],
       root = 0\<rparr>) \<and>
   fst (move \<lparr>heap = [\<lparr>name = [], children = [(''a'', 1)]\<rparr>, \<lparr>name = ''a'', children = []\<rparr>],
         root = 0\<rparr> ''a'' ''b'') = Moved"
proof -
  let ?s = "\<lparr>heap = [\<lparr>name = [], children = [(''a'', 1)]\<rparr>, \<lparr>name = ''a'', children = []\<rparr>],
         root = 0\<rparr>"
  have v: "\<not> is_valid_path ''a:b''" "is_valid_path ''a''" "is_valid_path ''b''"
    "is_valid_path ''a/b''" "is_valid_path ''c''"
    by (simp_all add: is_valid_path_def path_parts_def bad_part_def reserved_chars_def)
  have r: "\<not> resolves init ''a''" "resolves ?s ''a''"
    by (simp_all add: resolves_def get_node_and_parent_def path_parts_def init_def Node_def)
  have d: "is_subdirectory ''a'' ''a/b''" "\<not> is_subdirectory ''a'' ''b''"
    by (simp_all add: is_subdirectory_def path_parts_def)
  have m: "fst (move ?s ''a'' ''b'') \<noteq> NameCollision"
    by (simp add: move_def get_node_and_parent_def path_parts_def is_valid_path_def
        bad_part_def reserved_chars_def is_subdirectory_def Let_def set_children_def Node_def)
  show ?thesis
    using move_check_order[of "''a:b''" "''c''" init] move_check_order[of "''a''" "''a''" init]
      move_check_order[of "''a''" "''b''" init] move_check_order[of "''a''" "''a/b''" ?s]
      move_check_order[of "''a''" "''b''" ?s] v r d m
    by simp
qed

text \<open>
  C2, as amended. When the parts of \<open>B\<close> strictly extend the parts of \<open>A\<close>,
  \<open>move A B\<close> never changes the state and never succeeds: it reports \<open>InvalidName\<close>
  when a string fails \<open>_is_valid_path\<close>, \<open>SourceNotFound\<close> when \<open>A\<close> is valid but does not
  resolve, and \<open>DestinationIsDescendant\<close> in every other case, that is whenever both
  strings are valid and \<open>A\<close> exists.
\<close>

theorem move_into_descendant:
  assumes "e \<noteq> []" and "path_parts B = path_parts A @ e"
  shows "snd (move s A B) = s \<and>
         fst (move s A B) =
           (if \<not> is_valid_path A \<or> \<not> is_valid_path B then InvalidName
            else if \<not> resolves s A then SourceNotFound
            else DestinationIsDescendant)"
proof -
  from assms have sub: "is_subdirectory A B" by (auto simp: is_subdirectory_iff)
  from assms have "path_parts A \<noteq> path_parts B" by simp
  then have ne: "A \<noteq> B" by auto
  show ?thesis using sub ne
    by (auto simp: move_def resolves_def Let_def split: option.splits prod.splits)
qed

theorem move_into_descendant_witness:
  "move \<lparr>heap = [\<lparr>name = [], children = [(''a'', 1)]\<rparr>, \<lparr>name = ''a'', children = []\<rparr>],
         root = 0\<rparr> ''a'' ''a/b'' =
     (DestinationIsDescendant,
      \<lparr>heap = [\<lparr>name = [], children = [(''a'', 1)]\<rparr>, \<lparr>name = ''a'', children = []\<rparr>],
       root = 0\<rparr>)"
proof -
  let ?s = "\<lparr>heap = [\<lparr>name = [], children = [(''a'', 1)]\<rparr>, \<lparr>name = ''a'', children = []\<rparr>],
         root = 0\<rparr>"
  have e: "[''b''] \<noteq> []" "path_parts ''a/b'' = path_parts ''a'' @ [''b'']"
    by (simp_all add: path_parts_def)
  have v: "is_valid_path ''a''" "is_valid_path ''a/b''"
    by (simp_all add: is_valid_path_def path_parts_def bad_part_def reserved_chars_def)
  have r: "resolves ?s ''a''"
    by (simp add: resolves_def get_node_and_parent_def path_parts_def)
  from move_into_descendant[OF e, of ?s] v r show ?thesis
    by (simp add: prod_eq_iff)
qed

text \<open>
  C2 as stated fails: on the empty tree the descendant check is never reached for a
  source that does not exist, nor for a source that is not a valid name.
\<close>

theorem move_into_descendant_counterexample:
  "path_parts ''a/b'' = path_parts ''a'' @ [''b''] \<and>
   move init ''a'' ''a/b'' = (SourceNotFound, init) \<and>
   path_parts ''a:/b'' = path_parts ''a:'' @ [''b''] \<and>
   move init ''a:'' ''a:/b'' = (InvalidName, init)"
  by (simp add: path_parts_def move_def is_valid_path_def bad_part_def reserved_chars_def
      get_node_and_parent_def init_def Node_def)

text \<open>
  C3. When \<open>move\<close> reports \<open>NameCollision\<close> the state is exactly the one before the
  call: the destination loop has allocated nothing, because a directory it allocates is
  empty and so is every directory below it.
\<close>

theorem move_collision_unchanged:
  assumes "heap_ok s" and "fst (move s source destination) = NameCollision"
  shows "snd (move s source destination) = s"
proof -
  from assms(1) have c: "closed (heap s)" and r: "root s < length (heap s)"
    by (simp_all add: heap_ok_def)
  obtain h1 cur where md: "make_dirs (heap s) (root s) (path_parts destination) = (h1, cur)"
    by force
  from assms(2) obtain sp nd nm ntm where
    g: "get_node_and_parent s source = (Some sp, nd, nm)"
    and col: "map_of (children (h1 ! cur)) nm \<noteq> None"
    and res: "snd (move s source destination) = s\<lparr>heap := h1\<rparr>"
    using md by (auto simp: move_def Let_def split: option.splits prod.splits if_splits)
  from col have "children (h1 ! cur) \<noteq> []" by auto
  with make_dirs_changed[OF c r md] have "h1 = heap s" by simp
  with res show ?thesis by simp
qed

theorem move_collision_unchanged_witness:
  "case run init [Create ''a/b'', Create ''c/b''] of
     Inl e \<Rightarrow> False
   | Inr s \<Rightarrow> move s ''a/b'' ''c'' = (NameCollision, s)"
proof -
  define s where "s = \<lparr>heap = [\<lparr>name = [], children = [(''a'', 1), (''c'', 3)]\<rparr>,
                  \<lparr>name = ''a'', children = [(''b'', 2)]\<rparr>, \<lparr>name = ''b'', children = []\<rparr>,
                  \<lparr>name = ''c'', children = [(''b'', 4)]\<rparr>, \<lparr>name = ''b'', children = []\<rparr>],
               root = 0\<rparr>"
  have cr: "run init [Create ''a/b'', Create ''c/b''] = Inr s"
    by (simp add: s_def engine_defs)
  have ok: "heap_ok s" using run_inv[OF _ _ cr] init_inv by simp
  have f: "fst (move s ''a/b'' ''c'') = NameCollision"
    by (simp add: s_def engine_defs)
  from move_collision_unchanged[OF ok f] f have "move s ''a/b'' ''c'' = (NameCollision, s)"
    by (simp add: prod_eq_iff)
  with cr show ?thesis by simp
qed

text \<open>
  C10. In a state reached by a session from the empty tree, moving an existing source to
  a valid destination whose parts are the source's parts without the last one (the
  source's own parent, the root included) always reports \<open>NameCollision\<close> and returns the
  state as it was: the node collides with its own entry.
\<close>

theorem move_to_own_parent:
  assumes "run init cs = Inr s"
    and "resolves s source"
    and "is_valid_path destination"
    and "path_parts destination = butlast (path_parts source)"
  shows "move s source destination = (NameCollision, s)"
proof -
  from run_inv[OF _ _ assms(1)] init_inv have ok: "heap_ok s" and nm: "names_ok (heap s)"
    by simp_all
  from ok have c: "closed (heap s)" and r: "root s < length (heap s)"
    by (simp_all add: heap_ok_def)
  from assms(2) obtain parent nd where ne: "path_parts source \<noteq> []"
    and w: "walk (heap s) (root s) (butlast (path_parts source)) = Some parent"
    and l: "map_of (children (heap s ! parent)) (last (path_parts source)) = Some nd"
    and g: "get_node_and_parent s source = (Some parent, Some nd, last (path_parts source))"
    by (rule resolvesD)
  have pl: "parent < length (heap s)" using walk_valid[OF c r w] .
  have "is_valid_parts (butlast (path_parts source))" using walk_names[OF c nm r w] .
  moreover have "\<not> bad_part (last (path_parts source))"
    using names_okD[OF nm pl map_of_SomeD[OF l]] .
  ultimately have "is_valid_parts (butlast (path_parts source) @ [last (path_parts source)])"
    by (simp add: is_valid_parts_iff)
  with ne have vp: "is_valid_parts (path_parts source)" by simp
  from ne have "source \<noteq> []" by (auto simp: path_parts_def)
  with vp have vs: "is_valid_path source" by (simp add: is_valid_path_def)
  from ne assms(4) have "path_parts source \<noteq> path_parts destination"
    by (metis append_butlast_last_id append_self_conv not_Cons_self2)
  then have neq: "source \<noteq> destination" by auto
  have nsub: "\<not> is_subdirectory source destination"
    using assms(4) by (simp add: is_subdirectory_def Let_def)
  have md: "make_dirs (heap s) (root s) (path_parts destination) = (heap s, parent)"
    using walk_make_dirs[OF w] assms(4) by simp
  show ?thesis
    using vs assms(3) neq g l nsub md by (simp add: move_def)
qed

theorem move_to_own_parent_witness:
  "case run init [Create ''a/b''] of
     Inl e \<Rightarrow> False
   | Inr s \<Rightarrow> move s ''a/b'' ''/a/'' = (NameCollision, s) \<and>
             move s ''a'' ''/'' = (NameCollision, s)"
proof -
  define s where "s = \<lparr>heap = [\<lparr>name = [], children = [(''a'', 1)]\<rparr>,
                  \<lparr>name = ''a'', children = [(''b'', 2)]\<rparr>, \<lparr>name = ''b'', children = []\<rparr>],
               root = 0\<rparr>"
  have cr: "run init [Create ''a/b''] = Inr s"
    by (simp add: s_def engine_defs)
  have r: "resolves s ''a/b''" "resolves s ''a''"
    by (simp_all add: s_def engine_defs)
  have v: "is_valid_path ''/a/''" "is_valid_path ''/''"
    by (simp_all add: engine_defs)
  have p: "path_parts ''/a/'' = butlast (path_parts ''a/b'')"
    "path_parts ''/'' = butlast (path_parts ''a'')"
    by (simp_all add: engine_defs)
  from move_to_own_parent[OF cr r(1) v(1) p(1)] move_to_own_parent[OF cr r(2) v(2) p(2)] cr
  show ?thesis by simp
qed

section \<open>\<open>create\<close> is effective and idempotent\<close>

lemma expand_path_list_total: "\<exists>ps. expand_path_list p = Inr ps"
proof (cases "CHR ''/'' \<in> set p")
  case True
  from py_rindex_total[OF this] obtain i where "py_rindex CHR ''/'' p = Inr i" by blast
  then show ?thesis by (simp add: expand_path_list_def Let_def)
next
  case False
  then show ?thesis by (simp add: expand_path_list_def)
qed

lemma create_paths_reports:
  "fst (create_paths h r paths) =
     map (\<lambda>p. (p, if is_valid_path p then Created else InvalidName)) paths"
  by (induction paths arbitrary: h) (simp_all add: case_prod_beta)

lemma create_paths_walks:
  "closed h \<Longrightarrow> r < length h \<Longrightarrow> create_paths h r paths = (rs, h') \<Longrightarrow>
   closed h' \<and> heap_ext h h' \<and>
   (\<forall>p \<in> set paths. is_valid_path p \<longrightarrow> walk h' r (path_parts p) \<noteq> None)"
proof (induction paths arbitrary: h rs)
  case Nil
  then show ?case by (simp add: heap_ext_refl)
next
  case (Cons p paths)
  show ?case
  proof (cases "is_valid_path p")
    case False
    with Cons.prems(3) obtain rs' where "create_paths h r paths = (rs', h')"
      by (auto split: prod.splits)
    from Cons.IH[OF Cons.prems(1,2) this] False show ?thesis by simp
  next
    case True
    obtain h1 c1 where md: "make_dirs h r (path_parts p) = (h1, c1)" by force
    with True Cons.prems(3) obtain rs' where cp: "create_paths h1 r paths = (rs', h')"
      by (auto split: prod.splits)
    from make_dirs_props[OF Cons.prems(1,2) md]
    have p1: "closed h1" "heap_ext h h1" "walk h1 r (path_parts p) = Some c1" by simp_all
    from p1(2) Cons.prems(2) have r1: "r < length h1" by (simp add: heap_ext_def)
    from Cons.IH[OF p1(1) r1 cp]
    have ih: "closed h'" "heap_ext h1 h'"
      "\<forall>q \<in> set paths. is_valid_path q \<longrightarrow> walk h' r (path_parts q) \<noteq> None"
      by simp_all
    have "walk h' r (path_parts p) = Some c1" using walk_ext[OF ih(2) p1(1) r1 p1(3)] .
    with ih heap_ext_trans[OF p1(2) ih(2)] show ?thesis by simp
  qed
qed

lemma create_paths_fixed:
  "(\<forall>p \<in> set paths. is_valid_path p \<longrightarrow> walk h r (path_parts p) \<noteq> None) \<Longrightarrow>
   snd (create_paths h r paths) = h"
proof (induction paths)
  case Nil
  then show ?case by simp
next
  case (Cons p paths)
  show ?case
  proof (cases "is_valid_path p")
    case False
    with Cons show ?thesis by (simp add: case_prod_beta)
  next
    case True
    with Cons.prems obtain c where "walk h r (path_parts p) = Some c" by auto
    from walk_make_dirs[OF this] True Cons show ?thesis by (simp add: case_prod_beta)
  qed
qed

lemma walk_node_present:
  assumes "walk (heap s) (root s) (path_parts p) \<noteq> None"
  shows "fst (snd (get_node_and_parent s p)) \<noteq> None"
proof (cases "path_parts p = []")
  case True
  then show ?thesis by (simp add: get_node_and_parent_def)
next
  case False
  then have "resolves s p" using assms by (simp add: resolves_iff)
  then show ?thesis by (rule resolvesD) simp
qed

text \<open>
  C5, as amended. From any well-formed state \<open>create P\<close> returns, and a second
  \<open>create P\<close> returns the same reports and leaves the state of the first as it is, for
  every string \<open>P\<close>. After it, every valid path of the expansion of \<open>P\<close> resolves to a
  present node; this is \<open>P\<close> itself when \<open>P\<close> is valid and has no comma.
\<close>

theorem create_effective_idempotent:
  assumes "heap_ok s"
  shows "\<exists>paths rs s'. expand_path_list P = Inr paths \<and> create s P = Inr (rs, s') \<and>
           create s' P = Inr (rs, s') \<and>
           (\<forall>q \<in> set paths. is_valid_path q \<longrightarrow> fst (snd (get_node_and_parent s' q)) \<noteq> None) \<and>
           (is_valid_path P \<and> CHR '','' \<notin> set P \<longrightarrow>
              fst (snd (get_node_and_parent s' P)) \<noteq> None)"
proof -
  from assms have c: "closed (heap s)" and r: "root s < length (heap s)"
    by (simp_all add: heap_ok_def)
  obtain paths where ex: "expand_path_list P = Inr paths"
    using expand_path_list_total by blast
  obtain rs h' where cp: "create_paths (heap s) (root s) paths = (rs, h')" by force
  let ?s' = "s\<lparr>heap := h'\<rparr>"
  have c1: "create s P = Inr (rs, ?s')" using ex cp by (simp add: create_def)
  from create_paths_walks[OF c r cp]
  have w: "\<forall>q \<in> set paths. is_valid_path q \<longrightarrow> walk h' (root s) (path_parts q) \<noteq> None"
    by simp
  have "snd (create_paths h' (root s) paths) = h'" using create_paths_fixed[OF w] .
  moreover have "fst (create_paths h' (root s) paths) = rs"
    using cp create_paths_reports[of "heap s" "root s" paths]
      create_paths_reports[of h' "root s" paths] by simp
  ultimately have "create_paths h' (root s) paths = (rs, h')" by (simp add: prod_eq_iff)
  then have c2: "create ?s' P = Inr (rs, ?s')" using ex by (simp add: create_def)
  have n: "\<forall>q \<in> set paths. is_valid_path q \<longrightarrow> fst (snd (get_node_and_parent ?s' q)) \<noteq> None"
    using w walk_node_present[of ?s'] by simp
  have "CHR '','' \<notin> set P \<Longrightarrow> paths = [P]" using ex by (simp add: expand_path_list_def)
  with n have "is_valid_path P \<and> CHR '','' \<notin> set P \<longrightarrow>
      fst (snd (get_node_and_parent ?s' P)) \<noteq> None" by auto
  with ex c1 c2 n show ?thesis by blast
qed

theorem create_effective_idempotent_witness:
  "heap_ok init \<and> is_valid_path ''a/b'' \<and> CHR '','' \<notin> set ''a/b'' \<and>
   (\<exists>rs s'. create init ''a/b'' = Inr (rs, s') \<and> create s' ''a/b'' = Inr (rs, s') \<and>
      fst (snd (get_node_and_parent s' ''a/b'')) \<noteq> None)"
proof -
  have ok: "heap_ok init" using init_inv by simp
  have v: "is_valid_path ''a/b''" "CHR '','' \<notin> set ''a/b''" by (simp_all add: engine_defs)
  from create_effective_idempotent[OF ok, of "''a/b''"] v ok show ?thesis by blast
qed

text \<open>
  C5 as stated fails for a valid path with a comma: \<open>a,b\<close> passes \<open>_is_valid_path\<close>,
  \<open>create\<close> makes the two directories \<open>a\<close> and \<open>b\<close>, and the path \<open>a,b\<close> itself
  resolves to no node.
\<close>

theorem create_effective_counterexample:
  "is_valid_path ''a,b'' \<and>
   create init ''a,b'' =
     Inr ([(''a'', Created), (''b'', Created)],
          \<lparr>heap = [\<lparr>name = [], children = [(''a'', 1), (''b'', 2)]\<rparr>,
                   \<lparr>name = ''a'', children = []\<rparr>, \<lparr>name = ''b'', children = []\<rparr>],
           root = 0\<rparr>) \<and>
   get_node_and_parent
     \<lparr>heap = [\<lparr>name = [], children = [(''a'', 1), (''b'', 2)]\<rparr>,
              \<lparr>name = ''a'', children = []\<rparr>, \<lparr>name = ''b'', children = []\<rparr>],
      root = 0\<rparr> ''a,b'' = (Some 0, None, ''a,b'')"
  by (simp add: engine_defs)

section \<open>Deleting\<close>

text \<open>
  For a path outside the special case at the head of \<open>delete\<close>, a leaf is removed with no
  question asked, the state changing only in the parent's dictionary, which loses that
  one entry; and the confirmation is asked for exactly when the target has a child.
\<close>

lemma delete_ordinary_leaf:
  assumes "path \<notin> set [[], ''/'', ''root'', ''root/'', ''list'']"
    and "get_node_and_parent s path = (Some parent, Some nd, nm)"
    and "children (heap s ! nd) = []"
  shows "delete s path answer =
           (DeletedSubtree, False,
            s\<lparr>heap := set_children (heap s) parent
                         (AList.delete nm (children (heap s ! parent)))\<rparr>)"
proof -
  from gnp_SomeD(4)[OF assms(2)] have "map_of (children (heap s ! parent)) nm = Some nd"
    by simp
  with assms show ?thesis by (simp add: delete_def)
qed

lemma delete_entry_removed:
  "map_of (AList.delete nm cs) = (map_of cs)(nm := None)"
  by (rule delete_conv')

lemma delete_ordinary_prompt:
  assumes "path \<notin> set [[], ''/'', ''root'', ''root/'', ''list'']"
  shows "fst (snd (delete s path answer)) \<longleftrightarrow>
           (\<exists>parent nd nm. get_node_and_parent s path = (Some parent, Some nd, nm) \<and>
              children (heap s ! nd) \<noteq> [])"
proof (cases "get_node_and_parent s path")
  case (fields p nd nm)
  show ?thesis
  proof (cases p)
    case None
    with fields assms show ?thesis by (simp add: delete_def)
  next
    case (Some parent)
    with fields have "nd = map_of (children (heap s ! parent)) nm"
      using gnp_SomeD(4)[of s path parent nd nm] by simp
    with fields Some assms show ?thesis
      by (auto simp: delete_def split: option.splits)
  qed
qed

text \<open>
  The four root forms clear the root after confirmation; a path outside the special
  case that does not resolve is reported missing, with no question asked.
\<close>

lemma delete_root_forms:
  assumes "path \<in> set [[], ''/'', ''root'', ''root/'']"
  shows "delete s path answer =
           (if confirm_deletion answer
            then (DeletedRoot, True, s\<lparr>heap := set_children (heap s) (root s) []\<rparr>)
            else (Cancelled, True, s))"
  using assms by (auto simp: delete_def)

lemma delete_ordinary_not_found:
  assumes "path \<notin> set [[], ''/'', ''root'', ''root/'', ''list'']" and "\<not> resolves s path"
  shows "delete s path answer = (NotFound, False, s)"
  using assms by (auto simp: delete_def resolves_def split: option.splits prod.splits)

text \<open>
  C6. The special case of \<open>delete\<close> lists \<open>"list"\<close> beside the four root forms. With
  directories \<open>list\<close> and \<open>a/b\<close> in the tree, \<open>delete "list"\<close> answered \<open>yes\<close> asks for
  confirmation of the root and empties the root, \<open>a\<close> included, where an ordinary path
  would have lost the one leaf \<open>list\<close>.
\<close>

theorem delete_list_is_root_alias:
  "run init [Create ''list'', Create ''a/b''] =
     Inr \<lparr>heap = [\<lparr>name = [], children = [(''list'', 1), (''a'', 2)]\<rparr>,
                  \<lparr>name = ''list'', children = []\<rparr>,
                  \<lparr>name = ''a'', children = [(''b'', 3)]\<rparr>,
                  \<lparr>name = ''b'', children = []\<rparr>],
          root = 0\<rparr> \<and>
   delete \<lparr>heap = [\<lparr>name = [], children = [(''list'', 1), (''a'', 2)]\<rparr>,
                   \<lparr>name = ''list'', children = []\<rparr>,
                   \<lparr>name = ''a'', children = [(''b'', 3)]\<rparr>,
                   \<lparr>name = ''b'', children = []\<rparr>],
           root = 0\<rparr> ''list'' ''yes'' =
     (DeletedRoot, True,
      \<lparr>heap = [\<lparr>name = [], children = []\<rparr>,
               \<lparr>name = ''list'', children = []\<rparr>,
               \<lparr>name = ''a'', children = [(''b'', 3)]\<rparr>,
               \<lparr>name = ''b'', children = []\<rparr>],
       root = 0\<rparr>)"
  by (simp add: engine_defs)

text \<open>
  C7. The path \<open>list\<close> resolves to an existing leaf, and \<open>delete "list"\<close> asks for the
  confirmation all the same; answered \<open>no\<close>, it is cancelled and the leaf stays.
\<close>

theorem delete_leaf_named_list_prompts:
  "run init [Create ''list''] =
     Inr \<lparr>heap = [\<lparr>name = [], children = [(''list'', 1)]\<rparr>, \<lparr>name = ''list'', children = []\<rparr>],
          root = 0\<rparr> \<and>
   get_node_and_parent
     \<lparr>heap = [\<lparr>name = [], children = [(''list'', 1)]\<rparr>, \<lparr>name = ''list'', children = []\<rparr>],
      root = 0\<rparr> ''list'' = (Some 0, Some 1, ''list'') \<and>
   delete \<lparr>heap = [\<lparr>name = [], children = [(''list'', 1)]\<rparr>, \<lparr>name = ''list'', children = []\<rparr>],
           root = 0\<rparr> ''list'' ''no'' =
     (Cancelled, True,
      \<lparr>heap = [\<lparr>name = [], children = [(''list'', 1)]\<rparr>, \<lparr>name = ''list'', children = []\<rparr>],
       root = 0\<rparr>)"
  by (simp add: engine_defs)

section \<open>Moving a directory onto itself\<close>

text \<open>
  C1. \<open>a\<close> and \<open>a/\<close> are different strings with the same parts, so neither the check for
  equal strings nor \<open>_is_subdirectory\<close> stops \<open>move "a" "a/"\<close>: the destination loop ends
  at the node to move, the node is stored in its own dictionary and removed from the
  root's. The move reports success; afterwards the node is its own child and is no
  longer reachable from the root. What stays below the root is still a tree, see
  \<open>run_tree_shaped\<close> and \<open>run_unique_path\<close>.
\<close>

theorem move_onto_itself_makes_cycle:
  "run init [Create ''a''] =
     Inr \<lparr>heap = [\<lparr>name = [], children = [(''a'', 1)]\<rparr>, \<lparr>name = ''a'', children = []\<rparr>],
          root = 0\<rparr> \<and>
   move \<lparr>heap = [\<lparr>name = [], children = [(''a'', 1)]\<rparr>, \<lparr>name = ''a'', children = []\<rparr>],
         root = 0\<rparr> ''a'' ''a/'' =
     (Moved,
      \<lparr>heap = [\<lparr>name = [], children = []\<rparr>, \<lparr>name = ''a'', children = [(''a'', 1)]\<rparr>],
       root = 0\<rparr>) \<and>
   walk [\<lparr>name = [], children = []\<rparr>, \<lparr>name = ''a'', children = [(''a'', 1)]\<rparr>] 1 [''a'']
     = Some 1 \<and>
   walk [\<lparr>name = [], children = []\<rparr>, \<lparr>name = ''a'', children = [(''a'', 1)]\<rparr>] 0 [''a'']
     = None"
  by (simp add: engine_defs)

theorem move_onto_itself_makes_cycle_witness:
  "is_valid_path ''a'' \<and> is_valid_path ''a/'' \<and> ''a'' \<noteq> ''a/'' \<and>
   path_parts ''a'' = path_parts ''a/'' \<and>
   fst (move \<lparr>heap = [\<lparr>name = [], children = [(''a'', 1)]\<rparr>, \<lparr>name = ''a'', children = []\<rparr>],
              root = 0\<rparr> ''a'' ''a/'') = Moved"
  using move_onto_itself_makes_cycle
  by (simp add: is_valid_path_def path_parts_def bad_part_def reserved_chars_def)

section \<open>The listing\<close>

lemma next_sibling_append:
  "ys = [] \<or> indent (hd ys) < e \<Longrightarrow> next_sibling e (xs @ ys) = next_sibling e xs"
proof (induction xs)
  case Nil
  then show ?case by (cases ys) auto
next
  case (Cons x xs)
  then show ?case by simp
qed

lemma next_sibling_skip:
  "\<forall>l \<in> set xs. d < indent l \<Longrightarrow> next_sibling d (xs @ ys) = next_sibling d ys"
  by (induction xs) auto

lemma siblings_sorted_append:
  "siblings_sorted xs \<Longrightarrow> siblings_sorted ys \<Longrightarrow> \<forall>l \<in> set xs. d < indent l \<Longrightarrow>
   ys = [] \<or> indent (hd ys) \<le> d \<Longrightarrow> siblings_sorted (xs @ ys)"
proof (induction xs)
  case Nil
  then show ?case by simp
next
  case (Cons x xs)
  from Cons.prems have "ys = [] \<or> indent (hd ys) < indent x" by auto
  from next_sibling_append[OF this]
  have "next_sibling (indent x) (xs @ ys) = next_sibling (indent x) xs" .
  with Cons show ?case by simp
qed

lemma list_loop_mono:
  assumes "\<And>c i p l. rec c i p = Inr l \<Longrightarrow> rec' c i p = Inr l"
  shows "list_loop rec h nd ind pre len es = Inr ls \<Longrightarrow>
         list_loop rec' h nd ind pre len es = Inr ls"
proof (induction es arbitrary: ls)
  case Nil
  then show ?case by simp
next
  case (Cons e es)
  obtain i nm where e: "e = (i, nm)" by (cases e)
  from Cons.prems obtain child below after where
    c: "map_of (children (h ! nd)) nm = Some child"
    and b: "rec child (ind + 1) (pre @ [int i = int len - 1]) = Inr below"
    and a: "list_loop rec h nd ind pre len es = Inr after"
    and ls: "ls = \<lparr>indent = ind, prefix = pre, is_last = (int i = int len - 1),
                   shown = name (h ! child)\<rparr> # below @ after"
    unfolding e by (auto simp: Let_def split: option.splits sum.splits)
  from assms[OF b] Cons.IH[OF a] c ls show ?case unfolding e by (simp add: Let_def)
qed

lemma list_from_mono:
  "list_from m h a ind pre = Inr ls \<Longrightarrow> m \<le> m' \<Longrightarrow> list_from m' h a ind pre = Inr ls"
proof (induction m arbitrary: m' a ind pre ls)
  case 0
  then show ?case by simp
next
  case (Suc m)
  from Suc.prems(2) obtain k where m': "m' = Suc k" and le: "m \<le> k" by (cases m') auto
  have "\<And>c i p l. list_from m h c i p = Inr l \<Longrightarrow> list_from k h c i p = Inr l"
    using Suc.IH le by blast
  from list_loop_mono[of "list_from m h" "list_from k h", OF this] Suc.prems(1)
  show ?case unfolding m' by simp
qed

lemma list_loop_sorted:
  assumes "\<And>k. k \<in> snd ` set es \<Longrightarrow>
      \<exists>c. map_of (children (h ! nd)) k = Some c \<and> name (h ! c) = k \<and>
          (\<forall>p. \<exists>ls. rec c (ind + 1) p = Inr ls \<and> siblings_sorted ls \<and>
                (\<forall>l \<in> set ls. ind + 1 \<le> indent l))"
    and "sorted_wrt (<) (map snd es)"
  shows "\<exists>ls. list_loop rec h nd ind pre len es = Inr ls \<and> siblings_sorted ls \<and>
           (\<forall>l \<in> set ls. ind \<le> indent l) \<and>
           map shown (filter (\<lambda>l. indent l = ind) ls) = map snd es \<and>
           (es = [] \<longrightarrow> ls = []) \<and>
           (es \<noteq> [] \<longrightarrow> ls \<noteq> [] \<and> indent (hd ls) = ind \<and> shown (hd ls) = snd (hd es))"
  using assms
proof (induction es)
  case Nil
  then show ?case by simp
next
  case (Cons e es)
  obtain i nm where e: "e = (i, nm)" by (cases e)
  from Cons.prems(1)[of nm] obtain c where c: "map_of (children (h ! nd)) nm = Some c"
    and nc: "name (h ! c) = nm"
    and rc: "\<forall>p. \<exists>ls. rec c (ind + 1) p = Inr ls \<and> siblings_sorted ls \<and>
                (\<forall>l \<in> set ls. ind + 1 \<le> indent l)"
    unfolding e by auto
  from rc obtain below where b: "rec c (ind + 1) (pre @ [int i = int len - 1]) = Inr below"
    and sb: "siblings_sorted below" and ib: "\<forall>l \<in> set below. ind + 1 \<le> indent l"
    by blast
  have "\<exists>ls. list_loop rec h nd ind pre len es = Inr ls \<and> siblings_sorted ls \<and>
           (\<forall>l \<in> set ls. ind \<le> indent l) \<and>
           map shown (filter (\<lambda>l. indent l = ind) ls) = map snd es \<and>
           (es = [] \<longrightarrow> ls = []) \<and>
           (es \<noteq> [] \<longrightarrow> ls \<noteq> [] \<and> indent (hd ls) = ind \<and> shown (hd ls) = snd (hd es))"
  proof (rule Cons.IH)
    fix k assume "k \<in> snd ` set es"
    then show "\<exists>c. map_of (children (h ! nd)) k = Some c \<and> name (h ! c) = k \<and>
          (\<forall>p. \<exists>ls. rec c (ind + 1) p = Inr ls \<and> siblings_sorted ls \<and>
                (\<forall>l \<in> set ls. ind + 1 \<le> indent l))"
      using Cons.prems(1)[of k] by auto
  next
    show "sorted_wrt (<) (map snd es)" using Cons.prems(2) by simp
  qed
  then obtain after where a: "list_loop rec h nd ind pre len es = Inr after"
    and sa: "siblings_sorted after" and ia: "\<forall>l \<in> set after. ind \<le> indent l"
    and fa: "map shown (filter (\<lambda>l. indent l = ind) after) = map snd es"
    and ea: "es = [] \<longrightarrow> after = []"
    and ha: "es \<noteq> [] \<longrightarrow> after \<noteq> [] \<and> indent (hd after) = ind \<and>
              shown (hd after) = snd (hd es)"
    by blast
  let ?ln = "\<lparr>indent = ind, prefix = pre, is_last = (int i = int len - 1),
              shown = name (h ! c)\<rparr>"
  let ?ls = "?ln # below @ after"
  have res: "list_loop rec h nd ind pre len (e # es) = Inr ?ls"
    unfolding e using c b a by (simp add: Let_def)
  have gt: "\<forall>l \<in> set below. ind < indent l" using ib by auto
  have ns: "next_sibling ind (below @ after) = next_sibling ind after"
    using next_sibling_skip[OF gt] .
  have nxt: "case next_sibling ind after of None \<Rightarrow> True | Some l' \<Rightarrow> nm < shown l'"
  proof (cases es)
    case Nil
    with ea show ?thesis by simp
  next
    case (Cons e' es')
    with ha obtain x xs where af: "after = x # xs" and ix: "indent x = ind"
      and sx: "shown x = snd e'" by (cases after) auto
    from Cons.prems(2) Cons have "nm < snd e'" unfolding e by simp
    with af ix sx show ?thesis by simp
  qed
  have app: "siblings_sorted (below @ after)"
  proof (rule siblings_sorted_append[OF sb sa gt])
    show "after = [] \<or> indent (hd after) \<le> ind" using ea ha by (cases es) auto
  qed
  have s: "siblings_sorted ?ls" using ns nxt nc app
    by (simp split: option.splits)
  have f: "filter (\<lambda>l. indent l = ind) below = []" using gt by (auto simp: filter_empty_conv)
  have "map shown (filter (\<lambda>l. indent l = ind) ?ls) = map snd (e # es)"
    unfolding e using f fa nc by simp
  moreover have "\<forall>l \<in> set ?ls. ind \<le> indent l" using ib ia by auto
  ultimately show ?case using res s nc unfolding e by simp
qed

lemma sorted_keys_strict:
  "distinct (map fst (children (h ! a))) \<Longrightarrow> sorted_wrt (<) (sorted_keys h a)"
  by (simp add: sorted_keys_def strict_sorted_iff)

lemma set_sorted_keys: "set (sorted_keys h a) = fst ` set (children (h ! a))"
  by (simp add: sorted_keys_def)

lemma map_snd_enumerate: "map snd (enumerate n xs) = xs"
  by (simp add: enumerate_eq_zip)

lemma list_from_sorted:
  "tree_shaped n h a \<Longrightarrow>
   \<exists>ls. list_from n h a ind pre = Inr ls \<and> siblings_sorted ls \<and>
        (\<forall>l \<in> set ls. ind \<le> indent l) \<and>
        map shown (filter (\<lambda>l. indent l = ind) ls) = sorted_keys h a"
proof (induction n arbitrary: a ind pre)
  case 0
  then show ?case by simp
next
  case (Suc n)
  from Suc.prems have d: "distinct (map fst (children (h ! a)))"
    and ch: "\<And>k c. (k, c) \<in> set (children (h ! a)) \<Longrightarrow> name (h ! c) = k \<and> tree_shaped n h c"
    by (auto simp: list_all_iff)
  let ?es = "enumerate 0 (sorted_keys h a)"
  have "\<exists>ls. list_loop (list_from n h) h a ind pre (length (sorted_keys h a)) ?es = Inr ls \<and>
           siblings_sorted ls \<and> (\<forall>l \<in> set ls. ind \<le> indent l) \<and>
           map shown (filter (\<lambda>l. indent l = ind) ls) = map snd ?es \<and>
           (?es = [] \<longrightarrow> ls = []) \<and>
           (?es \<noteq> [] \<longrightarrow> ls \<noteq> [] \<and> indent (hd ls) = ind \<and> shown (hd ls) = snd (hd ?es))"
  proof (rule list_loop_sorted)
    fix k assume "k \<in> snd ` set ?es"
    then have "k \<in> set (map snd ?es)" by (simp only: set_map)
    then have "k \<in> fst ` set (children (h ! a))"
      unfolding map_snd_enumerate set_sorted_keys .
    then obtain c where kc: "(k, c) \<in> set (children (h ! a))" by auto
    with d have m: "map_of (children (h ! a)) k = Some c" by simp
    from ch[OF kc] have nk: "name (h ! c) = k" and t: "tree_shaped n h c" by simp_all
    have "\<forall>p. \<exists>ls. list_from n h c (ind + 1) p = Inr ls \<and> siblings_sorted ls \<and>
                (\<forall>l \<in> set ls. ind + 1 \<le> indent l)"
      using Suc.IH[OF t] by blast
    with m nk show "\<exists>c. map_of (children (h ! a)) k = Some c \<and> name (h ! c) = k \<and>
          (\<forall>p. \<exists>ls. list_from n h c (ind + 1) p = Inr ls \<and> siblings_sorted ls \<and>
                (\<forall>l \<in> set ls. ind + 1 \<le> indent l))" by blast
  next
    show "sorted_wrt (<) (map snd ?es)"
      unfolding map_snd_enumerate using sorted_keys_strict[OF d] .
  qed
  then show ?case unfolding map_snd_enumerate by auto
qed


lemma sorted_keys_order_free:
  assumes "distinct (map fst (children (h ! a)))" "distinct (map fst (children (h' ! a')))"
    and "fst ` set (children (h' ! a')) = fst ` set (children (h ! a))"
  shows "sorted_keys h' a' = sorted_keys h a"
proof (rule sorted_distinct_set_unique)
  show "set (sorted_keys h' a') = set (sorted_keys h a)"
    using assms(3) by (simp add: set_sorted_keys)
qed (simp_all add: sorted_keys_def assms)

subsection \<open>The layout of a listing\<close>

lemma length_trail [simp]: "length (trail f st ls) = length ls"
  by (induction ls arbitrary: st) simp_all

lemma trail_eq_Nil [simp]: "trail f st ls = [] \<longleftrightarrow> ls = []"
  by (cases ls) simp_all

lemma trail_append:
  "trail f st (xs @ ys) =
     trail f st xs @ trail f (if xs = [] then st else last (trail f st xs)) ys"
  by (induction xs arbitrary: st) simp_all

lemma trail_keeps:
  "d \<le> length st \<Longrightarrow> \<forall>l \<in> set xs. d \<le> indent l \<Longrightarrow>
   \<forall>p \<in> set (trail f st xs). take d p = take d st"
proof (induction xs arbitrary: st)
  case Nil
  then show ?case by simp
next
  case (Cons x xs)
  let ?p = "take (indent x) st @ [f x]"
  from Cons.prems have dx: "d \<le> indent x" by simp
  with Cons.prems(1) have tp: "take d ?p = take d st" by simp
  from dx Cons.prems(1) have lp: "d \<le> length ?p" by simp
  from Cons.IH[OF lp] Cons.prems(2) have "\<forall>p \<in> set (trail f ?p xs). take d p = take d ?p"
    by simp
  with tp show ?case by simp
qed

lemma trail_head:
  "ys = [] \<or> indent (hd ys) = d \<Longrightarrow> take d st' = take d st \<Longrightarrow> trail f st' ys = trail f st ys"
  by (cases ys) auto

text \<open>A line, the lines below it, and the lines after them.\<close>

lemma trail_block:
  assumes "length base = d" and "indent ln = d" and "\<forall>l \<in> set below. d < indent l"
    and "after = [] \<or> indent (hd after) = d"
  shows "trail f base (ln # below @ after) =
           (base @ [f ln]) # trail f (base @ [f ln]) below @ trail f base after"
proof -
  let ?b = "base @ [f ln]"
  let ?st = "if below = [] then ?b else last (trail f ?b below)"
  have "take d ?st = take d base"
  proof (cases "below = []")
    case True
    with assms(1) show ?thesis by simp
  next
    case False
    then have "last (trail f ?b below) \<in> set (trail f ?b below)"
      by (simp add: length_greater_0_conv[symmetric] del: length_greater_0_conv)
    moreover have "\<forall>l \<in> set below. d \<le> indent l" using assms(3) by auto
    from trail_keeps[OF _ this, of ?b f] assms(1)
    have "\<forall>p \<in> set (trail f ?b below). take d p = take d ?b" by simp
    ultimately show ?thesis using False assms(1) by simp
  qed
  from trail_head[OF assms(4) this] have "trail f ?st after = trail f base after" .
  with assms(1,2) show ?thesis by (simp add: trail_append)
qed

lemma lasts_ok_append:
  "lasts_ok xs \<Longrightarrow> lasts_ok ys \<Longrightarrow> \<forall>l \<in> set xs. d < indent l \<Longrightarrow>
   ys = [] \<or> indent (hd ys) \<le> d \<Longrightarrow> lasts_ok (xs @ ys)"
proof (induction xs)
  case Nil
  then show ?case by simp
next
  case (Cons x xs)
  from Cons.prems have "ys = [] \<or> indent (hd ys) < indent x" by auto
  from next_sibling_append[OF this]
  have "next_sibling (indent x) (xs @ ys) = next_sibling (indent x) xs" .
  with Cons show ?case by simp
qed

lemma path_less_extend: "q \<noteq> [] \<Longrightarrow> (p :: string list) < p @ q"
  by (induction p) (auto simp: neq_Nil_conv)

lemma path_less_branch: "k < k' \<Longrightarrow> (base :: string list) @ k # q < base @ k' # q'"
  by (induction base) auto

lemma paths_via_empty [simp]: "paths_via h a {} = {}"
  by (simp add: paths_via_def)

lemma paths_via_insert:
  "paths_via h a (insert k K) = paths_via h a {k} \<union> paths_via h a K"
  by (auto simp: paths_via_def)

lemma paths_via_child:
  assumes "map_of (children (h ! a)) k = Some c"
  shows "paths_via h a {k} = insert [k] ((\<lambda>q. k # q) ` paths_below h c)"
proof (intro set_eqI iffI)
  fix q assume "q \<in> paths_via h a {k}"
  then obtain q' where q: "q = k # q'" and w: "walk h a (k # q') \<noteq> None"
    by (cases q) (auto simp: paths_via_def)
  from w assms have "walk h c q' \<noteq> None" by simp
  then show "q \<in> insert [k] ((\<lambda>q. k # q) ` paths_below h c)"
    unfolding q by (cases "q' = []") (auto simp: paths_below_def)
next
  fix q assume "q \<in> insert [k] ((\<lambda>q. k # q) ` paths_below h c)"
  then show "q \<in> paths_via h a {k}"
    using assms by (auto simp: paths_via_def paths_below_def)
qed

lemma paths_via_keys:
  "fst ` set (children (h ! a)) \<subseteq> K \<Longrightarrow> paths_via h a K = paths_below h a"
proof -
  assume sub: "fst ` set (children (h ! a)) \<subseteq> K"
  have "hd q \<in> K" if "q \<noteq> []" "walk h a q \<noteq> None" for q
  proof -
    from that obtain k q' where q: "q = k # q'" by (cases q) auto
    with that(2) have "map_of (children (h ! a)) k \<noteq> None" by (auto split: option.splits)
    then have "k \<in> fst ` set (children (h ! a))" by (simp add: map_of_eq_None_iff)
    with sub q show ?thesis by auto
  qed
  then show ?thesis by (auto simp: paths_via_def paths_below_def)
qed

lemma sorted_block:
  assumes "sorted_wrt (<) B" and "sorted_wrt (<) A"
    and "\<forall>b \<in> set B. \<exists>q. q \<noteq> [] \<and> b = (base @ [k]) @ q"
    and "\<forall>a \<in> set A. \<exists>k' q. k < k' \<and> a = base @ k' # q"
  shows "sorted_wrt (<) (((base :: string list) @ [k]) # B @ A)"
proof -
  have hb: "base @ [k] < b" if "b \<in> set B" for b
  proof -
    from assms(3) that obtain q where q: "q \<noteq> []" and b: "b = (base @ [k]) @ q" by blast
    from path_less_extend[OF q, of "base @ [k]"] show ?thesis by (simp only: b)
  qed
  have ha: "base @ [k] < a" if "a \<in> set A" for a
  proof -
    from assms(4) that obtain k' q where kk: "k < k'" and a: "a = base @ k' # q" by blast
    from path_less_branch[OF kk, of base "[]" q] show ?thesis by (simp only: a)
  qed
  have ba: "b < a" if "b \<in> set B" "a \<in> set A" for b a
  proof -
    from assms(3) that(1) obtain q where b: "b = (base @ [k]) @ q" by blast
    from assms(4) that(2) obtain k' q' where kk: "k < k'" and a: "a = base @ k' # q'" by blast
    have "b = base @ k # q" by (simp only: b append_assoc append_Cons append_Nil)
    with path_less_branch[OF kk, of base q q'] show ?thesis by (simp only: a)
  qed
  have "sorted_wrt (<) (B @ A)"
    unfolding sorted_wrt_append using assms(1,2) ba by blast
  moreover have "\<forall>x \<in> set (B @ A). base @ [k] < x"
    using hb ha by auto
  ultimately show ?thesis by simp
qed

lemma layout_via:
  "paths_via h a K = paths_via h a K' \<Longrightarrow> layout h a K d p ls = layout h a K' d p ls"
  by (simp add: layout_def)

lemma layoutD:
  assumes "layout h a K d p ls"
  shows "\<forall>l \<in> set ls. d \<le> indent l" and "ls = [] \<or> indent (hd ls) = d" and "lasts_ok ls"
    and "trail is_last p ls = map (\<lambda>l. prefix l @ [is_last l]) ls"
    and "\<And>base. length base = d \<Longrightarrow>
         sorted_wrt (<) (trail shown base ls) \<and>
         set (trail shown base ls) = (\<lambda>q. base @ q) ` paths_via h a K \<and>
         map length (trail shown base ls) = map (\<lambda>l. Suc (indent l)) ls"
  using assms unfolding layout_def by blast+

lemma layoutI:
  assumes "\<forall>l \<in> set ls. d \<le> indent l" and "ls = [] \<or> indent (hd ls) = d" and "lasts_ok ls"
    and "trail is_last p ls = map (\<lambda>l. prefix l @ [is_last l]) ls"
    and "\<And>base. length base = d \<Longrightarrow>
         sorted_wrt (<) (trail shown base ls) \<and>
         set (trail shown base ls) = (\<lambda>q. base @ q) ` paths_via h a K \<and>
         map length (trail shown base ls) = map (\<lambda>l. Suc (indent l)) ls"
  shows "layout h a K d p ls"
  using assms unfolding layout_def by blast

lemma list_loop_layout:
  assumes rec: "\<And>k. k \<in> set ks \<Longrightarrow>
      \<exists>c. map_of (children (h ! nd)) k = Some c \<and> name (h ! c) = k \<and>
          (\<forall>p. length p = Suc ind \<longrightarrow>
             (\<exists>sub. rec c (Suc ind) p = Inr sub \<and> layout h c UNIV (Suc ind) p sub))"
    and srt: "sorted_wrt (<) ks" and pre: "length pre = ind" and len: "len = j + length ks"
  shows "\<exists>ls. list_loop rec h nd ind pre len (enumerate j ks) = Inr ls \<and>
           layout h nd (set ks) ind pre ls \<and> (ls = [] \<longleftrightarrow> ks = [])"
  using rec srt len
proof (induction ks arbitrary: j)
  case Nil
  show ?case by (simp add: layout_def)
next
  case (Cons k ks)
  from Cons.prems(1)[of k] obtain c where c: "map_of (children (h ! nd)) k = Some c"
    and nc: "name (h ! c) = k"
    and rc: "\<forall>p. length p = Suc ind \<longrightarrow>
             (\<exists>sub. rec c (Suc ind) p = Inr sub \<and> layout h c UNIV (Suc ind) p sub)"
    by auto
  define lo where "lo = (int j = int len - 1)"
  have "length (pre @ [lo]) = Suc ind" using pre by simp
  with rc obtain below where b: "rec c (Suc ind) (pre @ [lo]) = Inr below"
    and lb: "layout h c UNIV (Suc ind) (pre @ [lo]) below"
    by blast
  have "\<exists>ls. list_loop rec h nd ind pre len (enumerate (Suc j) ks) = Inr ls \<and>
           layout h nd (set ks) ind pre ls \<and> (ls = [] \<longleftrightarrow> ks = [])"
  proof (rule Cons.IH)
    fix k' assume "k' \<in> set ks"
    then show "\<exists>c. map_of (children (h ! nd)) k' = Some c \<and> name (h ! c) = k' \<and>
          (\<forall>p. length p = Suc ind \<longrightarrow>
             (\<exists>sub. rec c (Suc ind) p = Inr sub \<and> layout h c UNIV (Suc ind) p sub))"
      using Cons.prems(1)[of k'] by simp
  next
    show "sorted_wrt (<) ks" using Cons.prems(2) by simp
  next
    show "len = Suc j + length ks" using Cons.prems(3) by simp
  qed
  then obtain after where a: "list_loop rec h nd ind pre len (enumerate (Suc j) ks) = Inr after"
    and la: "layout h nd (set ks) ind pre after" and ea: "after = [] \<longleftrightarrow> ks = []"
    by blast
  let ?ln = "\<lparr>indent = ind, prefix = pre, is_last = lo, shown = name (h ! c)\<rparr>"
  define ls where "ls = ?ln # below @ after"
  have res: "list_loop rec h nd ind pre len (enumerate j (k # ks)) = Inr ls"
    using c b a by (simp add: Let_def lo_def ls_def)
  note kb = layoutD(3)[OF lb] and tb = layoutD(4)[OF lb] and pb = layoutD(5)[OF lb]
  from layoutD(1)[OF lb] have ib: "\<forall>l \<in> set below. ind < indent l" by auto
  note ia = layoutD(1)[OF la] and ha = layoutD(2)[OF la] and ka = layoutD(3)[OF la]
    and ta = layoutD(4)[OF la] and pa = layoutD(5)[OF la]
  have p1: "\<forall>l \<in> set ls. ind \<le> indent l" using ib ia by (auto simp: ls_def)
  have p2: "ls = [] \<or> indent (hd ls) = ind" by (simp add: ls_def)
  have ns: "next_sibling ind (below @ after) = next_sibling ind after"
    using next_sibling_skip[OF ib] .
  have "next_sibling ind after = None \<longleftrightarrow> after = []"
    using ha by (cases after) auto
  moreover have "lo \<longleftrightarrow> ks = []" using Cons.prems(3) by (auto simp: lo_def)
  ultimately have l1: "is_last ?ln \<longleftrightarrow> next_sibling (indent ?ln) (below @ after) = None"
    using ns ea by simp
  have "lasts_ok (below @ after)"
  proof (rule lasts_ok_append[OF kb ka ib])
    show "after = [] \<or> indent (hd after) \<le> ind" using ha by auto
  qed
  with l1 have p3: "lasts_ok ls" by (simp add: ls_def)
  have tr: "trail f base ls =
      (base @ [f ?ln]) # trail f (base @ [f ?ln]) below @ trail f base after"
    if "length base = ind" for f :: "line \<Rightarrow> 'b" and base
    unfolding ls_def by (rule trail_block[OF that _ ib ha]) simp
  have "trail is_last pre ls =
      (pre @ [lo]) # trail is_last (pre @ [lo]) below @ trail is_last pre after"
    using tr[OF pre, of is_last] by simp
  also have "\<dots> = map (\<lambda>l. prefix l @ [is_last l]) ls"
    by (simp add: tb ta ls_def)
  finally have p4: "trail is_last pre ls = map (\<lambda>l. prefix l @ [is_last l]) ls" .
  have via: "paths_via h c UNIV = paths_below h c" by (simp add: paths_via_keys)
  have p5: "sorted_wrt (<) (trail shown base ls) \<and>
         set (trail shown base ls) = (\<lambda>q. base @ q) ` paths_via h nd (set (k # ks)) \<and>
         map length (trail shown base ls) = map (\<lambda>l. Suc (indent l)) ls"
    if bl: "length base = ind" for base
  proof -
    let ?B = "trail shown (base @ [k]) below" and ?A = "trail shown base after"
    have e: "trail shown base ls = (base @ [k]) # ?B @ ?A"
      using tr[OF bl, of shown] nc by simp
    from pb[of "base @ [k]"] bl have sB: "sorted_wrt (<) ?B"
      and setB: "set ?B = (\<lambda>q. (base @ [k]) @ q) ` paths_below h c"
      and lenB: "map length ?B = map (\<lambda>l. Suc (indent l)) below"
      by (simp_all add: via)
    from pa[OF bl] have sA: "sorted_wrt (<) ?A"
      and setA: "set ?A = (\<lambda>q. base @ q) ` paths_via h nd (set ks)"
      and lenA: "map length ?A = map (\<lambda>l. Suc (indent l)) after"
      by simp_all
    have kk: "\<forall>k' \<in> set ks. k < k'" using Cons.prems(2) by simp
    have "sorted_wrt (<) ((base @ [k]) # ?B @ ?A)"
    proof (rule sorted_block[OF sB sA])
      show "\<forall>b \<in> set ?B. \<exists>q. q \<noteq> [] \<and> b = (base @ [k]) @ q"
        unfolding setB by (auto simp: paths_below_def)
    next
      show "\<forall>a \<in> set ?A. \<exists>k' q. k < k' \<and> a = base @ k' # q"
      proof
        fix a assume "a \<in> set ?A"
        then obtain q where q: "q \<in> paths_via h nd (set ks)" and a: "a = base @ q"
          unfolding setA by blast
        from q obtain k' q' where "q = k' # q'" "k' \<in> set ks"
          by (cases q) (auto simp: paths_via_def)
        with kk a show "\<exists>k' q. k < k' \<and> a = base @ k' # q" by blast
      qed
    qed
    moreover have "set ((base @ [k]) # ?B @ ?A) =
        (\<lambda>q. base @ q) ` paths_via h nd (set (k # ks))"
    proof -
      have "paths_via h nd (set (k # ks)) =
          insert [k] ((\<lambda>q. k # q) ` paths_below h c) \<union> paths_via h nd (set ks)"
        using paths_via_insert[of h nd k "set ks"] paths_via_child[OF c] by simp
      then have "(\<lambda>q. base @ q) ` paths_via h nd (set (k # ks)) =
          insert (base @ [k]) ((\<lambda>q. (base @ [k]) @ q) ` paths_below h c) \<union>
          (\<lambda>q. base @ q) ` paths_via h nd (set ks)"
        by (simp add: image_Un image_image)
      with setB setA show ?thesis by simp
    qed
    moreover have "map length ((base @ [k]) # ?B @ ?A) = map (\<lambda>l. Suc (indent l)) ls"
      using lenB lenA bl by (simp add: ls_def)
    ultimately show ?thesis unfolding e by blast
  qed
  have "layout h nd (set (k # ks)) ind pre ls"
    by (rule layoutI[OF p1 p2 p3 p4 p5])
  moreover have "ls \<noteq> []" by (simp add: ls_def)
  ultimately show ?case using res by blast
qed

lemma list_from_layout:
  "tree_shaped n h a \<Longrightarrow> length pre = ind \<Longrightarrow>
   \<exists>ls. list_from n h a ind pre = Inr ls \<and> layout h a UNIV ind pre ls"
proof (induction n arbitrary: a ind pre)
  case 0
  then show ?case by simp
next
  case (Suc n)
  from Suc.prems(1) have d: "distinct (map fst (children (h ! a)))"
    and ch: "\<And>k c. (k, c) \<in> set (children (h ! a)) \<Longrightarrow> name (h ! c) = k \<and> tree_shaped n h c"
    by (auto simp: list_all_iff)
  have "\<exists>ls. list_loop (list_from n h) h a ind pre (length (sorted_keys h a))
               (enumerate 0 (sorted_keys h a)) = Inr ls \<and>
             layout h a (set (sorted_keys h a)) ind pre ls \<and>
             (ls = [] \<longleftrightarrow> sorted_keys h a = [])"
  proof (rule list_loop_layout)
    fix k assume "k \<in> set (sorted_keys h a)"
    then obtain c where kc: "(k, c) \<in> set (children (h ! a))"
      by (auto simp: set_sorted_keys)
    with d have m: "map_of (children (h ! a)) k = Some c" by simp
    from ch[OF kc] have nk: "name (h ! c) = k" and t: "tree_shaped n h c" by simp_all
    have "\<forall>p. length p = Suc ind \<longrightarrow>
             (\<exists>sub. list_from n h c (Suc ind) p = Inr sub \<and> layout h c UNIV (Suc ind) p sub)"
      using Suc.IH[OF t] by blast
    with m nk show "\<exists>c. map_of (children (h ! a)) k = Some c \<and> name (h ! c) = k \<and>
          (\<forall>p. length p = Suc ind \<longrightarrow>
             (\<exists>sub. list_from n h c (Suc ind) p = Inr sub \<and> layout h c UNIV (Suc ind) p sub))"
      by blast
  next
    show "sorted_wrt (<) (sorted_keys h a)" using sorted_keys_strict[OF d] .
  next
    show "length pre = ind" using Suc.prems(2) .
  next
    show "length (sorted_keys h a) = 0 + length (sorted_keys h a)" by simp
  qed
  then obtain ls where l: "list_from (Suc n) h a ind pre = Inr ls"
    and lay: "layout h a (set (sorted_keys h a)) ind pre ls" by auto
  have "paths_via h a (set (sorted_keys h a)) = paths_via h a UNIV"
    by (simp add: paths_via_keys set_sorted_keys)
  from layout_via[OF this] lay l show ?case by blast
qed

text \<open>
  C9. On a tree, \<open>list\<close> returns for every depth bound that covers the tree, and returns
  the state it was given. The lines it prints stand for exactly the directories below the
  root, each once: read back with \<open>trail\<close>, the paths of the lines are the paths that
  resolve, in strictly increasing order, which is parent before child and, under every
  directory, the children in the alphabetical order of their names; every line is at the
  level of its path, its prefix is made of the glyphs of the lines that enclose it, and it
  carries the last-sibling glyph exactly when no sibling follows. So every line is
  strictly before its next sibling at every level, the lines of the top level are the
  sorted keys of the root, and that sequence is the same for every dictionary with the
  same set of keys, whatever its insertion order. Every state a session reaches is such a
  tree, see \<open>run_tree_shaped\<close>.
\<close>

theorem list_sorted_and_pure:
  assumes "tree_shaped n (heap s) (root s)" and "n \<le> m"
  shows "\<exists>ls. list_tree m s = (Inr ls, s) \<and> siblings_sorted ls \<and>
           map shown (filter (\<lambda>l. indent l = 0) ls) = sorted_keys (heap s) (root s) \<and>
           sorted_wrt (<) (sorted_keys (heap s) (root s)) \<and>
           set (sorted_keys (heap s) (root s)) = fst ` set (children (heap s ! root s)) \<and>
           (\<forall>h' a'. distinct (map fst (children (h' ! a'))) \<and>
              fst ` set (children (h' ! a')) = fst ` set (children (heap s ! root s)) \<longrightarrow>
              sorted_keys h' a' = sorted_keys (heap s) (root s)) \<and>
           set (trail shown [] ls) = {ps. ps \<noteq> [] \<and> walk (heap s) (root s) ps \<noteq> None} \<and>
           sorted_wrt (<) (trail shown [] ls) \<and>
           map length (trail shown [] ls) = map (\<lambda>l. Suc (indent l)) ls \<and>
           trail is_last [] ls = map (\<lambda>l. prefix l @ [is_last l]) ls \<and>
           lasts_ok ls"
proof -
  from list_from_sorted[OF assms(1), of 0 "[]"] obtain ls where
    l: "list_from n (heap s) (root s) 0 [] = Inr ls" and s: "siblings_sorted ls"
    and f: "map shown (filter (\<lambda>l. indent l = 0) ls) = sorted_keys (heap s) (root s)"
    by blast
  from list_from_layout[OF assms(1), of "[]" 0] l
  have lay: "layout (heap s) (root s) UNIV 0 [] ls" by simp
  have via: "(\<lambda>q. [] @ q) ` paths_via (heap s) (root s) UNIV =
      {ps. ps \<noteq> [] \<and> walk (heap s) (root s) ps \<noteq> None}"
    by (simp add: paths_via_def)
  from layoutD(5)[OF lay, of "[]"] via
  have t: "set (trail shown [] ls) = {ps. ps \<noteq> [] \<and> walk (heap s) (root s) ps \<noteq> None}"
    "sorted_wrt (<) (trail shown [] ls)"
    "map length (trail shown [] ls) = map (\<lambda>l. Suc (indent l)) ls"
    by simp_all
  note g = layoutD(4)[OF lay] layoutD(3)[OF lay]
  from list_from_mono[OF l assms(2)] have r: "list_tree m s = (Inr ls, s)"
    by (simp add: list_tree_def)
  from assms(1) have d: "distinct (map fst (children (heap s ! root s)))"
    by (cases n) simp_all
  from sorted_keys_strict[OF d] have k: "sorted_wrt (<) (sorted_keys (heap s) (root s))" .
  have o: "\<forall>h' a'. distinct (map fst (children (h' ! a'))) \<and>
              fst ` set (children (h' ! a')) = fst ` set (children (heap s ! root s)) \<longrightarrow>
              sorted_keys h' a' = sorted_keys (heap s) (root s)"
    using sorted_keys_order_free[OF d] by blast
  show ?thesis
    by (intro exI[of _ ls] conjI r s f k set_sorted_keys o t g)
qed

theorem list_sorted_and_pure_witness:
  "tree_shaped 2 (heap init) (root init) \<and>
   list_tree 2 init = (Inr [], init) \<and>
   (case run init [Create ''b'', Create ''a/c/d''] of
      Inl e \<Rightarrow> False
    | Inr s \<Rightarrow>
        heap s = [\<lparr>name = [], children = [(''b'', 1), (''a'', 2)]\<rparr>,
                  \<lparr>name = ''b'', children = []\<rparr>,
                  \<lparr>name = ''a'', children = [(''c'', 3)]\<rparr>,
                  \<lparr>name = ''c'', children = [(''d'', 4)]\<rparr>,
                  \<lparr>name = ''d'', children = []\<rparr>] \<and>
        tree_shaped 4 (heap s) (root s) \<and>
        list_tree 5 s =
          (Inr [\<lparr>indent = 0, prefix = [], is_last = False, shown = ''a''\<rparr>,
                \<lparr>indent = 1, prefix = [False], is_last = True, shown = ''c''\<rparr>,
                \<lparr>indent = 2, prefix = [False, True], is_last = True, shown = ''d''\<rparr>,
                \<lparr>indent = 0, prefix = [], is_last = True, shown = ''b''\<rparr>], s) \<and>
        sorted_keys (heap s) (root s) = [''a'', ''b''] \<and>
        trail shown []
          [\<lparr>indent = 0, prefix = [], is_last = False, shown = ''a''\<rparr>,
           \<lparr>indent = 1, prefix = [False], is_last = True, shown = ''c''\<rparr>,
           \<lparr>indent = 2, prefix = [False, True], is_last = True, shown = ''d''\<rparr>,
           \<lparr>indent = 0, prefix = [], is_last = True, shown = ''b''\<rparr>] =
          [[''a''], [''a'', ''c''], [''a'', ''c'', ''d''], [''b'']])"
proof -
  define s where "s = \<lparr>heap = [\<lparr>name = [], children = [(''b'', 1), (''a'', 2)]\<rparr>,
                  \<lparr>name = ''b'', children = []\<rparr>,
                  \<lparr>name = ''a'', children = [(''c'', 3)]\<rparr>,
                  \<lparr>name = ''c'', children = [(''d'', 4)]\<rparr>,
                  \<lparr>name = ''d'', children = []\<rparr>],
               root = 0\<rparr>"
  have cr: "run init [Create ''b'', Create ''a/c/d''] = Inr s"
    by (simp add: s_def engine_defs)
  have t0: "tree_shaped 2 (heap init) (root init)"
    by (simp add: init_def Node_def numeral_2_eq_2)
  have t: "tree_shaped 4 (heap s) (root s)"
    by (simp add: s_def eval_nat_numeral)
  from list_sorted_and_pure[OF t0, of 2] obtain ls0 where
    l0: "list_tree 2 init = (Inr ls0, init)"
    and k0: "map shown (filter (\<lambda>l. indent l = 0) ls0) = sorted_keys (heap init) (root init)"
    by auto
  have "sorted_keys (heap init) (root init) = []"
    by (simp add: sorted_keys_def init_def Node_def)
  with k0 l0 have e0: "list_tree 2 init = (Inr [], init)"
    by (simp add: list_tree_def init_def Node_def numeral_2_eq_2 sorted_keys_def)
  from list_sorted_and_pure[OF t, of 5] obtain ls where
    l: "list_tree 5 s = (Inr ls, s)" by auto
  have sk: "sorted_keys (heap s) (root s) = [''a'', ''b'']"
    by (simp add: s_def sorted_keys_def)
  have "list_from 4 (heap s) (root s) 0 [] =
          Inr [\<lparr>indent = 0, prefix = [], is_last = False, shown = ''a''\<rparr>,
               \<lparr>indent = 1, prefix = [False], is_last = True, shown = ''c''\<rparr>,
               \<lparr>indent = 2, prefix = [False, True], is_last = True, shown = ''d''\<rparr>,
               \<lparr>indent = 0, prefix = [], is_last = True, shown = ''b''\<rparr>]"
    by (simp add: s_def sorted_keys_def eval_nat_numeral enumerate_eq_zip)
  from list_from_mono[OF this, of 5] l have
    "list_tree 5 s =
          (Inr [\<lparr>indent = 0, prefix = [], is_last = False, shown = ''a''\<rparr>,
               \<lparr>indent = 1, prefix = [False], is_last = True, shown = ''c''\<rparr>,
               \<lparr>indent = 2, prefix = [False, True], is_last = True, shown = ''d''\<rparr>,
               \<lparr>indent = 0, prefix = [], is_last = True, shown = ''b''\<rparr>], s)"
    by (simp add: list_tree_def)
  moreover have "trail shown []
          [\<lparr>indent = 0, prefix = [], is_last = False, shown = ''a''\<rparr>,
           \<lparr>indent = 1, prefix = [False], is_last = True, shown = ''c''\<rparr>,
           \<lparr>indent = 2, prefix = [False, True], is_last = True, shown = ''d''\<rparr>,
           \<lparr>indent = 0, prefix = [], is_last = True, shown = ''b''\<rparr>] =
          [[''a''], [''a'', ''c''], [''a'', ''c'', ''d''], [''b'']]"
    by (simp add: eval_nat_numeral)
  ultimately show ?thesis using cr t0 e0 t sk by (simp add: s_def)
qed

section \<open>Every session keeps the tree below the root a tree\<close>

lemma path_invI:
  assumes "P r = Some []"
    and "\<And>a ps. P a = Some ps \<Longrightarrow>
          a < length h \<and> length ps < N \<and> distinct (map fst (children (h ! a)))"
    and "\<And>a ps k c. P a = Some ps \<Longrightarrow> (k, c) \<in> set (children (h ! a)) \<Longrightarrow>
          P c = Some (ps @ [k]) \<and> name (h ! c) = k"
    and "\<And>a b ps. P a = Some ps \<Longrightarrow> P b = Some ps \<Longrightarrow> a = b"
    and "\<And>a ps x. P a = Some (ps @ [x]) \<Longrightarrow>
          \<exists>b. P b = Some ps \<and> map_of (children (h ! b)) x = Some a"
  shows "path_inv h r P N"
  unfolding path_inv_def using assms by blast

lemma path_inv_root: "path_inv h r P N \<Longrightarrow> P r = Some []"
  by (simp add: path_inv_def)

lemma path_inv_node:
  "path_inv h r P N \<Longrightarrow> P a = Some ps \<Longrightarrow>
   a < length h \<and> length ps < N \<and> distinct (map fst (children (h ! a)))"
  unfolding path_inv_def by blast

lemma path_inv_child:
  "path_inv h r P N \<Longrightarrow> P a = Some ps \<Longrightarrow> (k, c) \<in> set (children (h ! a)) \<Longrightarrow>
   P c = Some (ps @ [k]) \<and> name (h ! c) = k"
  unfolding path_inv_def by blast

lemma path_inv_inj:
  "path_inv h r P N \<Longrightarrow> P a = Some ps \<Longrightarrow> P b = Some ps \<Longrightarrow> a = b"
  unfolding path_inv_def by blast

lemma path_inv_parent:
  "path_inv h r P N \<Longrightarrow> P a = Some (ps @ [x]) \<Longrightarrow>
   \<exists>b. P b = Some ps \<and> map_of (children (h ! b)) x = Some a"
  unfolding path_inv_def by blast

lemma path_inv_lookup:
  assumes "path_inv h r P N" "P a = Some ps" "map_of (children (h ! a)) k = Some c"
  shows "P c = Some (ps @ [k])" "name (h ! c) = k"
  using path_inv_child[OF assms(1,2) map_of_SomeD[OF assms(3)]] by simp_all

lemma under_iff: "under pm qs \<longleftrightarrow> (\<exists>suf. qs = pm @ suf)"
  unfolding under_def
  by (metis append_eq_conv_conj)

lemma under_snoc: "under pm qs \<Longrightarrow> under pm (qs @ [x])"
  by (auto simp: under_iff)

lemma under_snoc_cases: "under pm (qs @ [x]) \<Longrightarrow> under pm qs \<or> pm = qs @ [x]"
proof -
  assume "under pm (qs @ [x])"
  then obtain suf where s: "qs @ [x] = pm @ suf" by (auto simp: under_iff)
  show ?thesis
  proof (cases suf rule: rev_cases)
    case Nil
    with s show ?thesis by simp
  next
    case (snoc suf' y)
    with s have "qs = pm @ suf'" by simp
    then show ?thesis by (auto simp: under_iff)
  qed
qed

lemma walk_path:
  "path_inv h r P N \<Longrightarrow> P a = Some ps \<Longrightarrow> walk h a qs = Some b \<Longrightarrow> P b = Some (ps @ qs)"
proof (induction qs arbitrary: a ps)
  case Nil
  then show ?case by simp
next
  case (Cons q qs)
  from Cons.prems(3) obtain c where c: "map_of (children (h ! a)) q = Some c"
    and w: "walk h c qs = Some b" by (auto split: option.splits)
  from path_inv_lookup(1)[OF Cons.prems(1,2) c] have "P c = Some (ps @ [q])" .
  from Cons.IH[OF Cons.prems(1) this w] show ?case by simp
qed

lemma path_inv_closed_part:
  "path_inv h r P N \<Longrightarrow> P a = Some ps \<Longrightarrow> (k, c) \<in> set (children (h ! a)) \<Longrightarrow> c < length h"
  using path_inv_child path_inv_node by blast

lemma update_fresh: "k \<notin> fst ` set al \<Longrightarrow> AList.update k v al = al @ [(k, v)]"
  by (induction al) auto

text \<open>One allocation keeps the tree a tree.\<close>

lemma path_inv_add_dir:
  assumes inv: "path_inv h r P N" and cur: "P cur = Some ps"
    and new: "map_of (children (h ! cur)) part = None"
  shows "path_inv (add_dir h cur part) r (P(length h := Some (ps @ [part])))
           (max N (length ps + 2))"
proof (rule path_invI)
  let ?h = "add_dir h cur part" and ?P = "P(length h := Some (ps @ [part]))"
  from path_inv_node[OF inv cur] have cl: "cur < length h"
    and dc: "distinct (map fst (children (h ! cur)))" by simp_all
  have fresh: "P (length h) = None"
  proof (cases "P (length h)")
    case (Some qs)
    from path_inv_node[OF inv Some] show ?thesis by simp
  qed simp
  have old: "a < length h \<and> a \<noteq> length h" if "P a = Some qs" for a qs
    using path_inv_node[OF inv that] by simp
  have rl: "r \<noteq> length h" using old[OF path_inv_root[OF inv]] by simp
  show "?P r = Some []" using path_inv_root[OF inv] rl by simp
  have upd: "AList.update part (length h) (children (h ! cur)) =
             children (h ! cur) @ [(part, length h)]"
    using new by (simp add: update_fresh map_of_eq_None_iff)
  have ch: "children (?h ! a) =
      (if a = cur then children (h ! cur) @ [(part, length h)]
       else if a = length h then [] else children (h ! a))" if "a \<le> length h" for a
    using children_add_dir[OF cl that] upd by simp
  have nm: "name (?h ! a) = (if a = length h then part else name (h ! a))"
    if "a \<le> length h" for a
    using that by (auto simp: add_dir_def name_set_children nth_append Node_def)
  have pn: "part \<notin> fst ` set (children (h ! cur))"
    using new by (simp add: map_of_eq_None_iff)
  show "a < length ?h \<and> length qs < max N (length ps + 2) \<and>
        distinct (map fst (children (?h ! a)))" if p: "?P a = Some qs" for a qs
  proof (cases "a = length h")
    case True
    with p have "qs = ps @ [part]" by simp
    moreover have "children (?h ! a) = []" using ch[of a] True cl by simp
    ultimately show ?thesis using True by simp
  next
    case False
    with p have pa: "P a = Some qs" by simp
    from path_inv_node[OF inv pa] old[OF pa] ch[of a] dc pn show ?thesis by auto
  qed
  show "?P c = Some (qs @ [k]) \<and> name (?h ! c) = k"
    if p: "?P a = Some qs" and kc: "(k, c) \<in> set (children (?h ! a))" for a qs k c
  proof (cases "a = length h")
    case True
    then have "children (?h ! a) = []" using ch[of a] cl by simp
    with kc show ?thesis by simp
  next
    case False
    with p have pa: "P a = Some qs" by simp
    from old[OF pa] have al: "a \<le> length h" by simp
    show ?thesis
    proof (cases "(k, c) \<in> set (children (h ! a))")
      case True
      from path_inv_child[OF inv pa True] have pc: "P c = Some (qs @ [k])"
        and nc: "name (h ! c) = k" by simp_all
      from old[OF pc] nm[of c] pc nc show ?thesis by simp
    next
      case F2: False
      with kc ch[OF al] have "a = cur" "k = part" "c = length h"
        by (auto split: if_splits)
      with pa cur nm[of c] show ?thesis by simp
    qed
  qed
  show "a = b" if pa: "?P a = Some qs" and pb: "?P b = Some qs" for a b qs
  proof -
    have no: "P x \<noteq> Some (ps @ [part])" for x
    proof
      assume px: "P x = Some (ps @ [part])"
      from path_inv_parent[OF inv px] obtain y where py: "P y = Some ps"
        and l: "map_of (children (h ! y)) part = Some x" by blast
      from path_inv_inj[OF inv py cur] l new show False by simp
    qed
    show ?thesis
    proof (cases "a = length h")
      case True
      with pa have "qs = ps @ [part]" by simp
      with pb no[of b] True show ?thesis by (auto split: if_splits)
    next
      case False
      with pa have pa': "P a = Some qs" by simp
      show ?thesis
      proof (cases "b = length h")
        case True
        with pb have "qs = ps @ [part]" by simp
        with pa' no[of a] show ?thesis by simp
      next
        case F2: False
        with pb have "P b = Some qs" by simp
        from path_inv_inj[OF inv pa' this] show ?thesis .
      qed
    qed
  qed
  show "\<exists>b. ?P b = Some qs \<and> map_of (children (?h ! b)) x = Some a"
    if pa: "?P a = Some (qs @ [x])" for a qs x
  proof (cases "a = length h")
    case True
    with pa have "qs = ps" "x = part" by simp_all
    moreover have "map_of (children (?h ! cur)) part = Some (length h)"
      using ch[of cur] cl new by (simp add: map_of_append map_add_def)
    moreover have "?P cur = Some ps" using cur old[OF cur] by simp
    ultimately show ?thesis using True by blast
  next
    case False
    with pa have pa': "P a = Some (qs @ [x])" by simp
    from path_inv_parent[OF inv pa'] obtain b where pb: "P b = Some qs"
      and l: "map_of (children (h ! b)) x = Some a" by blast
    from old[OF pb] have bl: "b \<le> length h" "b \<noteq> length h" by simp_all
    have "map_of (children (?h ! b)) x = Some a"
      using ch[OF bl(1)] bl(2) l by (auto simp: map_of_append map_add_def)
    moreover have "?P b = Some qs" using pb bl(2) by simp
    ultimately show ?thesis by blast
  qed
qed

lemma path_inv_make_dirs:
  "path_inv h r P N \<Longrightarrow> P cur = Some ps \<Longrightarrow> make_dirs h cur parts = (h', c') \<Longrightarrow>
   \<exists>P' N'. path_inv h' r P' N' \<and> P' c' = Some (ps @ parts) \<and>
           (\<forall>a qs. P a = Some qs \<longrightarrow> P' a = Some qs)"
proof (induction parts arbitrary: h cur ps P N)
  case Nil
  then show ?case by auto
next
  case (Cons part parts)
  show ?case
  proof (cases "map_of (children (h ! cur)) part")
    case None
    let ?h = "add_dir h cur part" and ?P = "P(length h := Some (ps @ [part]))"
    from Cons.prems(3) have md: "make_dirs ?h (length h) parts = (h', c')"
      unfolding make_dirs_None[OF None] .
    have i: "path_inv ?h r ?P (max N (length ps + 2))"
      using path_inv_add_dir[OF Cons.prems(1,2) None] .
    have pn: "?P (length h) = Some (ps @ [part])" by simp
    from Cons.IH[OF i pn md] obtain P' N' where r: "path_inv h' r P' N'"
      "P' c' = Some ((ps @ [part]) @ parts)" "\<forall>a qs. ?P a = Some qs \<longrightarrow> P' a = Some qs"
      by blast
    have "P' a = Some qs" if "P a = Some qs" for a qs
    proof -
      from path_inv_node[OF Cons.prems(1) that] have "a \<noteq> length h" by simp
      with that r(3) show ?thesis by simp
    qed
    with r show ?thesis by auto
  next
    case (Some child)
    with Cons.prems(3) have md: "make_dirs h child parts = (h', c')" by simp
    have pc: "P child = Some (ps @ [part])"
      using path_inv_lookup(1)[OF Cons.prems(1,2) Some] .
    from Cons.IH[OF Cons.prems(1) pc md] show ?thesis by simp
  qed
qed

text \<open>Cutting a subtree off keeps the rest a tree, whatever becomes of the subtree.\<close>

lemma path_inv_detach:
  assumes inv: "path_inv h r P N" and sp: "P sp = Some ps"
    and len: "length h' = length h"
    and rest: "\<And>a qs. P a = Some qs \<Longrightarrow> \<not> under (ps @ [k]) qs \<Longrightarrow>
        name (h' ! a) = name (h ! a) \<and>
        children (h' ! a) =
          (if a = sp then AList.delete k (children (h ! sp)) else children (h ! a))"
  shows "path_inv h' r (erase P (ps @ [k])) N"
proof (rule path_invI)
  let ?pm = "ps @ [k]" and ?P = "erase P (ps @ [k])"
  have eD: "P a = Some qs \<and> \<not> under ?pm qs" if "?P a = Some qs" for a qs
    using that by (auto simp: erase_def split: option.splits if_splits)
  have eI: "?P a = Some qs" if "P a = Some qs" "\<not> under ?pm qs" for a qs
    using that by (simp add: erase_def)
  have nsp: "\<not> under ?pm ps" by (simp add: under_def)
  show "?P r = Some []" using path_inv_root[OF inv] by (simp add: erase_def under_def)
  show "a < length h' \<and> length qs < N \<and> distinct (map fst (children (h' ! a)))"
    if "?P a = Some qs" for a qs
  proof -
    from eD[OF that] have pa: "P a = Some qs" and nu: "\<not> under ?pm qs" by simp_all
    from path_inv_node[OF inv pa] rest[OF pa nu] len show ?thesis
      by (auto simp: distinct_delete)
  qed
  have kept: "(x, c) \<in> set (children (h ! a)) \<and> \<not> under ?pm (qs @ [x])"
    if pa: "P a = Some qs" and nu: "\<not> under ?pm qs"
      and xc: "(x, c) \<in> set (children (h' ! a))" for a qs x c
  proof -
    from rest[OF pa nu] xc have m: "(x, c) \<in> set (children (h ! a))"
      and d: "a = sp \<longrightarrow> x \<noteq> k"
      using set_delete_subset[of k "children (h ! sp)"]
      by (auto simp: AList.delete_eq split: if_splits)
    have "\<not> under ?pm (qs @ [x])"
    proof
      assume "under ?pm (qs @ [x])"
      from under_snoc_cases[OF this] nu have e: "ps @ [k] = qs @ [x]" by simp
      then have "qs = ps" "x = k" by simp_all
      with path_inv_inj[OF inv pa] sp d show False by simp
    qed
    with m show ?thesis by simp
  qed
  show "?P c = Some (qs @ [x]) \<and> name (h' ! c) = x"
    if "?P a = Some qs" and xc: "(x, c) \<in> set (children (h' ! a))" for a qs x c
  proof -
    from eD[OF that(1)] have pa: "P a = Some qs" and nu: "\<not> under ?pm qs" by simp_all
    from kept[OF pa nu xc] have m: "(x, c) \<in> set (children (h ! a))"
      and nc: "\<not> under ?pm (qs @ [x])" by simp_all
    from path_inv_child[OF inv pa m] have pc: "P c = Some (qs @ [x])"
      and n: "name (h ! c) = x" by simp_all
    from rest[OF pc nc] n eI[OF pc nc] show ?thesis by simp
  qed
  show "a = b" if "?P a = Some qs" "?P b = Some qs" for a b qs
    using path_inv_inj[OF inv] eD[OF that(1)] eD[OF that(2)] by blast
  show "\<exists>b. ?P b = Some qs \<and> map_of (children (h' ! b)) x = Some a"
    if "?P a = Some (qs @ [x])" for a qs x
  proof -
    from eD[OF that] have pa: "P a = Some (qs @ [x])" and nu: "\<not> under ?pm (qs @ [x])"
      by simp_all
    from path_inv_parent[OF inv pa] obtain b where pb: "P b = Some qs"
      and l: "map_of (children (h ! b)) x = Some a" by blast
    from nu have nb: "\<not> under ?pm qs" using under_snoc by blast
    have "b = sp \<longrightarrow> x \<noteq> k"
    proof (intro impI notI)
      assume "b = sp" "x = k"
      with pb sp have "qs = ps" by simp
      with \<open>x = k\<close> nu show False by (simp add: under_def)
    qed
    with rest[OF pb nb] l have "map_of (children (h' ! b)) x = Some a" by auto
    with eI[OF pb nb] show ?thesis by blast
  qed
qed

lemma path_inv_prefix:
  "path_inv h r P N \<Longrightarrow> P a = Some (qs @ suf) \<Longrightarrow> \<exists>c. P c = Some qs"
proof (induction suf arbitrary: a rule: rev_induct)
  case Nil
  then show ?case by auto
next
  case (snoc x suf)
  from snoc.prems(2) have "P a = Some ((qs @ suf) @ [x])" by simp
  from path_inv_parent[OF snoc.prems(1) this] obtain b where "P b = Some (qs @ suf)" by blast
  from snoc.IH[OF snoc.prems(1) this] show ?case .
qed

lemma path_inv_no_path_below_free:
  assumes inv: "path_inv h r P N" and cur: "P cur = Some pd"
    and free: "map_of (children (h ! cur)) k = None"
  shows "P a \<noteq> Some ((pd @ [k]) @ suf)"
proof
  assume "P a = Some ((pd @ [k]) @ suf)"
  from path_inv_prefix[OF inv this] obtain c where "P c = Some (pd @ [k])" by blast
  from path_inv_parent[OF inv this] obtain b where pb: "P b = Some pd"
    and l: "map_of (children (h ! b)) k = Some c" by blast
  from path_inv_inj[OF inv pb cur] l free show False by simp
qed

text \<open>Putting a subtree under another directory, outside itself, keeps the tree a tree.\<close>

lemma path_inv_regraft:
  assumes inv: "path_inv h r P N" and sp: "P sp = Some ps"
    and lk: "map_of (children (h ! sp)) k = Some m"
    and cur: "P cur = Some pd" and nu: "\<not> under (ps @ [k]) pd"
    and free: "map_of (children (h ! cur)) k = None"
    and len: "length h' = length h"
    and nm: "\<And>a. name (h' ! a) = name (h ! a)"
    and ch: "\<And>a. a < length h \<Longrightarrow> children (h' ! a) =
        (if a = sp then AList.delete k (children (h ! sp))
         else if a = cur then children (h ! cur) @ [(k, m)] else children (h ! a))"
  shows "path_inv h' r (reroot P (ps @ [k]) (pd @ [k])) (N + N + 1)"
proof (rule path_invI)
  let ?pm = "ps @ [k]" and ?pn = "pd @ [k]"
  let ?R = "reroot P ?pm ?pn"
  have pm: "P m = Some ?pm" and nmm: "name (h ! m) = k"
    using path_inv_lookup[OF inv sp lk] by simp_all
  have ne: "cur \<noteq> sp" using lk free by auto
  have nsp: "\<not> under ?pm ps" by (simp add: under_def)
  have kf: "k \<notin> fst ` set (children (h ! cur))"
    using free by (simp add: map_of_eq_None_iff)
  have RD: "\<exists>qs0. P a = Some qs0 \<and>
      ((\<exists>suf. qs0 = ?pm @ suf \<and> qs = ?pn @ suf) \<or> (\<not> under ?pm qs0 \<and> qs = qs0))"
    if "?R a = Some qs" for a qs
  proof (cases "P a")
    case None
    with that show ?thesis by (simp add: reroot_def)
  next
    case (Some qs0)
    show ?thesis
    proof (cases "under ?pm qs0")
      case True
      then obtain suf where s: "qs0 = ?pm @ suf" by (auto simp: under_iff)
      with that Some True have "qs = ?pn @ suf" by (simp add: reroot_def)
      with Some s show ?thesis by blast
    next
      case False
      with that Some show ?thesis by (simp add: reroot_def)
    qed
  qed
  have RU: "?R a = Some (?pn @ suf)" if "P a = Some (?pm @ suf)" for a suf
    using that by (simp add: reroot_def under_def)
  have RN: "?R a = Some qs" if "P a = Some qs" "\<not> under ?pm qs" for a qs
    using that by (simp add: reroot_def)
  have snoc_not_under: "\<not> under ?pm (qs @ [x])"
    if pa: "P a = Some qs" and n: "\<not> under ?pm qs" and d: "a = sp \<longrightarrow> x \<noteq> k" for a qs x
  proof
    assume "under ?pm (qs @ [x])"
    from under_snoc_cases[OF this] n have "ps @ [k] = qs @ [x]" by simp
    then have "qs = ps" "x = k" by simp_all
    with path_inv_inj[OF inv pa] sp d show False by simp
  qed
  show "?R r = Some []" using RN[OF path_inv_root[OF inv]] by (simp add: under_def)
  show "a < length h' \<and> length qs < N + N + 1 \<and> distinct (map fst (children (h' ! a)))"
    if "?R a = Some qs" for a qs
  proof -
    from RD[OF that] obtain qs0 where pa: "P a = Some qs0"
      and c: "(\<exists>suf. qs0 = ?pm @ suf \<and> qs = ?pn @ suf) \<or> qs = qs0" by blast
    from path_inv_node[OF inv pa] have al: "a < length h" and l0: "length qs0 < N"
      and d: "distinct (map fst (children (h ! a)))" by simp_all
    from path_inv_node[OF inv cur] have "length pd < N" by simp
    with c l0 have "length qs < N + N + 1" by auto
    moreover have "distinct (map fst (children (h' ! a)))"
      using ch[OF al] d kf by (auto simp: distinct_delete)
    ultimately show ?thesis using al len by simp
  qed
  show "?R c = Some (qs @ [x]) \<and> name (h' ! c) = x"
    if ra: "?R a = Some qs" and xc: "(x, c) \<in> set (children (h' ! a))" for a qs x c
  proof -
    from RD[OF ra] obtain qs0 where pa: "P a = Some qs0"
      and cs: "(\<exists>suf. qs0 = ?pm @ suf \<and> qs = ?pn @ suf) \<or> (\<not> under ?pm qs0 \<and> qs = qs0)"
      by blast
    from path_inv_node[OF inv pa] have al: "a < length h" by simp
    show ?thesis
    proof (cases "a = cur \<and> (x, c) = (k, m)")
      case True
      with pa cur cs nu have "qs = pd" by (auto simp: under_iff)
      with True RU[of m "[]"] pm nmm nm[of m] show ?thesis by simp
    next
      case False
      with xc ch[OF al] have old: "(x, c) \<in> set (children (h ! a))"
        and d: "a = sp \<longrightarrow> x \<noteq> k"
        using set_delete_subset[of k "children (h ! sp)"]
        by (auto simp: AList.delete_eq split: if_splits)
      from path_inv_child[OF inv pa old] have pc: "P c = Some (qs0 @ [x])"
        and nc: "name (h ! c) = x" by simp_all
      from cs show ?thesis
      proof
        assume "\<exists>suf. qs0 = ?pm @ suf \<and> qs = ?pn @ suf"
        then obtain suf where s: "qs0 = ?pm @ suf" "qs = ?pn @ suf" by blast
        with pc have "P c = Some (?pm @ (suf @ [x]))" by simp
        from RU[OF this] s nc nm[of c] show ?thesis by simp
      next
        assume n: "\<not> under ?pm qs0 \<and> qs = qs0"
        with snoc_not_under[OF pa _ d] have "\<not> under ?pm (qs0 @ [x])" by simp
        from RN[OF pc this] n nc nm[of c] show ?thesis by simp
      qed
    qed
  qed
  show "a = b" if ra: "?R a = Some qs" and rb: "?R b = Some qs" for a b qs
  proof -
    from RD[OF ra] obtain qa where pa: "P a = Some qa"
      and ca: "(\<exists>suf. qa = ?pm @ suf \<and> qs = ?pn @ suf) \<or> (\<not> under ?pm qa \<and> qs = qa)"
      by blast
    from RD[OF rb] obtain qb where pb: "P b = Some qb"
      and cb: "(\<exists>suf. qb = ?pm @ suf \<and> qs = ?pn @ suf) \<or> (\<not> under ?pm qb \<and> qs = qb)"
      by blast
    have no: "P x \<noteq> Some (?pn @ suf)" for x suf
      using path_inv_no_path_below_free[OF inv cur free] by simp
    from ca cb pa pb no have "qa = qb" by auto
    with path_inv_inj[OF inv pa] pb show ?thesis by simp
  qed
  show "\<exists>b. ?R b = Some qs \<and> map_of (children (h' ! b)) x = Some a"
    if ra: "?R a = Some (qs @ [x])" for a qs x
  proof -
    from RD[OF ra] obtain qa where pa: "P a = Some qa"
      and ca: "(\<exists>suf. qa = ?pm @ suf \<and> qs @ [x] = ?pn @ suf) \<or>
               (\<not> under ?pm qa \<and> qs @ [x] = qa)"
      by blast
    from ca show ?thesis
    proof
      assume "\<exists>suf. qa = ?pm @ suf \<and> qs @ [x] = ?pn @ suf"
      then obtain suf where s: "qa = ?pm @ suf" "qs @ [x] = ?pn @ suf" by blast
      show ?thesis
      proof (cases suf rule: rev_cases)
        case Nil
        with s have e: "qs = pd" "x = k" and "qa = ?pm" by simp_all
        with pa pm path_inv_inj[OF inv] have am: "a = m" by blast
        from path_inv_node[OF inv cur] have cl: "cur < length h" by simp
        have "map_of (children (h' ! cur)) k = Some m"
          using ch[OF cl] ne free by (simp add: map_of_append map_add_def)
        with RN[OF cur nu] e am show ?thesis by blast
      next
        case (snoc suf' y)
        with s have e: "x = y" "qs = ?pn @ suf'" and qa: "qa = (?pm @ suf') @ [y]" by simp_all
        from path_inv_parent[OF inv pa[unfolded qa]] obtain b where
          pb: "P b = Some (?pm @ suf')" and l: "map_of (children (h ! b)) y = Some a" by blast
        have "b \<noteq> sp" using pb sp by (auto simp: under_def)
        moreover have "b \<noteq> cur" using pb cur nu by (auto simp: under_iff)
        moreover from path_inv_node[OF inv pb] have "b < length h" by simp
        ultimately have "map_of (children (h' ! b)) y = Some a" using ch[of b] l by simp
        with RU[OF pb] e show ?thesis by blast
      qed
    next
      assume n: "\<not> under ?pm qa \<and> qs @ [x] = qa"
      with pa have pa': "P a = Some (qs @ [x])" by simp
      from path_inv_parent[OF inv pa'] obtain b where pb: "P b = Some qs"
        and l: "map_of (children (h ! b)) x = Some a" by blast
      from n have nb: "\<not> under ?pm qs" using under_snoc by blast
      from path_inv_node[OF inv pb] have bl: "b < length h" by simp
      have "b = sp \<longrightarrow> x \<noteq> k"
      proof (intro impI notI)
        assume "b = sp" "x = k"
        with pb sp have "qs = ps" by simp
        with \<open>x = k\<close> n show False by (auto simp: under_def)
      qed
      with ch[OF bl] l have "map_of (children (h' ! b)) x = Some a"
        by (auto simp: map_of_append map_add_def)
      with RN[OF pb nb] show ?thesis by blast
    qed
  qed
qed

lemma tree_ok_init: "tree_ok init"
  unfolding tree_ok_def
proof (intro exI)
  show "path_inv (heap init) (root init) (\<lambda>a. if a = 0 then Some [] else None) 1"
    by (rule path_invI) (auto simp: init_def Node_def split: if_splits)
qed

lemma path_inv_create_paths:
  "path_inv h r P N \<Longrightarrow> create_paths h r paths = (rs, h') \<Longrightarrow> \<exists>P' N'. path_inv h' r P' N'"
proof (induction paths arbitrary: h P N rs)
  case Nil
  then show ?case by auto
next
  case (Cons p paths)
  show ?case
  proof (cases "is_valid_path p")
    case False
    with Cons.prems(2) obtain rs' where "create_paths h r paths = (rs', h')"
      by (auto split: prod.splits)
    from Cons.IH[OF Cons.prems(1) this] show ?thesis .
  next
    case True
    obtain h1 c1 where md: "make_dirs h r (path_parts p) = (h1, c1)" by force
    with True Cons.prems(2) obtain rs' where cp: "create_paths h1 r paths = (rs', h')"
      by (auto split: prod.splits)
    from path_inv_make_dirs[OF Cons.prems(1) path_inv_root[OF Cons.prems(1)] md]
    obtain P1 N1 where "path_inv h1 r P1 N1" by blast
    from Cons.IH[OF this cp] show ?thesis .
  qed
qed

lemma tree_ok_create:
  assumes "tree_ok s" "create s path = Inr (rs, s')"
  shows "tree_ok s'"
proof -
  from assms(2) obtain paths h' where cp: "create_paths (heap s) (root s) paths = (rs, h')"
    and s': "s' = s\<lparr>heap := h'\<rparr>"
    by (auto simp: create_def split: sum.splits prod.splits)
  from assms(1) obtain P N where "path_inv (heap s) (root s) P N" by (auto simp: tree_ok_def)
  from path_inv_create_paths[OF this cp] show ?thesis by (simp add: tree_ok_def s')
qed

lemma path_inv_clear_root:
  assumes "path_inv h r P N"
  shows "path_inv (set_children h r []) r (\<lambda>a. if a = r then Some [] else None) 1"
proof -
  from path_inv_node[OF assms path_inv_root[OF assms]] have "r < length h" by simp
  then show ?thesis
    by (intro path_invI) (auto simp: children_set_children split: if_splits)
qed

lemma tree_ok_delete:
  assumes "tree_ok s"
  shows "tree_ok (snd (snd (delete s path answer)))"
proof -
  from assms obtain P N where inv: "path_inv (heap s) (root s) P N"
    by (auto simp: tree_ok_def)
  let ?s' = "snd (snd (delete s path answer))"
  have "?s' = s \<or> ?s' = s\<lparr>heap := set_children (heap s) (root s) []\<rparr> \<or>
        (\<exists>parent nd nm. get_node_and_parent s path = (Some parent, nd, nm) \<and>
           ?s' = s\<lparr>heap := set_children (heap s) parent
                     (AList.delete nm (children (heap s ! parent)))\<rparr>)"
  proof (cases "path \<in> set [[], ''/'', ''root'', ''root/'', ''list'']")
    case True
    then show ?thesis by (simp add: delete_def)
  next
    case False
    obtain p nd nm where g: "get_node_and_parent s path = (p, nd, nm)"
      by (cases "get_node_and_parent s path")
    show ?thesis
    proof (cases p)
      case None
      with False g show ?thesis by (simp add: delete_def)
    next
      case (Some parent)
      show ?thesis
      proof (cases "map_of (children (heap s ! parent)) nm")
        case None
        with False g Some show ?thesis by (simp add: delete_def)
      next
        case (Some t)
        with False g \<open>p = Some parent\<close> show ?thesis by (simp add: delete_def)
      qed
    qed
  qed
  then consider (same) "?s' = s"
    | (root) "?s' = s\<lparr>heap := set_children (heap s) (root s) []\<rparr>"
    | (sub) parent nd nm where "get_node_and_parent s path = (Some parent, nd, nm)"
        "?s' = s\<lparr>heap := set_children (heap s) parent
                  (AList.delete nm (children (heap s ! parent)))\<rparr>"
    by blast
  then show ?thesis
  proof cases
    case same
    with assms show ?thesis by simp
  next
    case root
    with path_inv_clear_root[OF inv] show ?thesis by (auto simp: tree_ok_def)
  next
    case (sub parent nd nm)
    let ?h' = "set_children (heap s) parent (AList.delete nm (children (heap s ! parent)))"
    from walk_path[OF inv path_inv_root[OF inv] gnp_SomeD(2)[OF sub(1)]]
    have pp: "P parent = Some (butlast (path_parts path))" by simp
    have "path_inv ?h' (root s) (erase P (butlast (path_parts path) @ [nm])) N"
    proof (rule path_inv_detach[OF inv pp])
      show "length ?h' = length (heap s)" by simp
    next
      fix a qs assume "P a = Some qs"
      from path_inv_node[OF inv this] have "a < length (heap s)" by simp
      then show "name (?h' ! a) = name (heap s ! a) \<and>
        children (?h' ! a) =
          (if a = parent then AList.delete nm (children (heap s ! parent))
           else children (heap s ! a))"
        by (simp add: name_set_children children_set_children)
    qed
    with sub(2) show ?thesis by (auto simp: tree_ok_def)
  qed
qed

lemma not_subdirectory_under:
  assumes "\<not> is_subdirectory source destination"
    and "under (path_parts source) (path_parts destination)"
  shows "path_parts destination = path_parts source"
proof -
  from assms(2) obtain suf where s: "path_parts destination = path_parts source @ suf"
    by (auto simp: under_iff)
  with assms(1) have "suf = []" by (auto simp: is_subdirectory_iff)
  with s show ?thesis by simp
qed

lemma tree_ok_move:
  assumes "tree_ok s"
  shows "tree_ok (snd (move s source destination))"
proof (cases "fst (move s source destination) \<in> {NameCollision, Moved}")
  case False
  then have "snd (move s source destination) = s"
    by (auto simp: move_def Let_def split: option.splits prod.splits if_splits)
  with assms show ?thesis by simp
next
  case True
  from assms obtain P N where inv: "path_inv (heap s) (root s) P N"
    by (auto simp: tree_ok_def)
  from True obtain sp nd k m where
      g: "get_node_and_parent s source = (Some sp, nd, k)"
      and l: "map_of (children (heap s ! sp)) k = Some m"
      and nsub: "\<not> is_subdirectory source destination"
    by (auto simp: move_def Let_def split: option.splits prod.splits if_splits)
  obtain h1 cur where md: "make_dirs (heap s) (root s) (path_parts destination) = (h1, cur)"
    by force
  let ?ps = "butlast (path_parts source)"
  from gnp_SomeD[OF g] have pne: "path_parts source \<noteq> []" and k: "k = last (path_parts source)"
    and w: "walk (heap s) (root s) ?ps = Some sp" by simp_all
  have pm_eq: "?ps @ [k] = path_parts source" using pne k by simp
  from walk_path[OF inv path_inv_root[OF inv] w] have psp: "P sp = Some ?ps" by simp
  from path_inv_lookup(1)[OF inv psp l] have pmm: "P m = Some (?ps @ [k])" .
  from path_inv_make_dirs[OF inv path_inv_root[OF inv] md] obtain P1 N1 where
    inv1: "path_inv h1 (root s) P1 N1" and pcur: "P1 cur = Some (path_parts destination)"
    and ext: "\<forall>a qs. P a = Some qs \<longrightarrow> P1 a = Some qs" by auto
  from ext psp pmm have psp1: "P1 sp = Some ?ps" and pmm1: "P1 m = Some (?ps @ [k])"
    by simp_all
  from path_inv_parent[OF inv1 pmm1] obtain b where "P1 b = Some ?ps"
    and lb: "map_of (children (h1 ! b)) k = Some m" by blast
  with path_inv_inj[OF inv1 psp1] have l1: "map_of (children (h1 ! sp)) k = Some m" by simp
  let ?h2 = "set_children h1 cur (AList.update k m (children (h1 ! cur)))"
  let ?h3 = "set_children ?h2 sp (AList.delete k (children (?h2 ! sp)))"
  from True g l md have res: "snd (move s source destination) = s\<lparr>heap := h1\<rparr> \<or>
      (map_of (children (h1 ! cur)) k = None \<and>
       snd (move s source destination) = s\<lparr>heap := ?h3\<rparr>)"
    by (auto simp: move_def Let_def split: option.splits prod.splits if_splits)
  then show ?thesis
  proof
    assume "snd (move s source destination) = s\<lparr>heap := h1\<rparr>"
    with inv1 show ?thesis by (auto simp: tree_ok_def)
  next
    assume a: "map_of (children (h1 ! cur)) k = None \<and>
       snd (move s source destination) = s\<lparr>heap := ?h3\<rparr>"
    then have free: "map_of (children (h1 ! cur)) k = None" by simp
    from l1 free have ne: "cur \<noteq> sp" by auto
    from path_inv_node[OF inv1 psp1] have spl: "sp < length h1" by simp
    from path_inv_node[OF inv1 pcur] have cl: "cur < length h1" by simp
    have ch3: "children (?h3 ! x) =
        (if x = sp then AList.delete k (children (h1 ! sp))
         else if x = cur then AList.update k m (children (h1 ! cur))
         else children (h1 ! x))" if "x < length h1" for x
      using that ne spl by (simp add: children_set_children)
    have nm3: "name (?h3 ! x) = name (h1 ! x)" for x
      by (simp add: name_set_children)
    have "\<exists>P' N'. path_inv ?h3 (root s) P' N'"
    proof (cases "under (?ps @ [k]) (path_parts destination)")
      case True
      with not_subdirectory_under[OF nsub] pm_eq
      have "path_parts destination = ?ps @ [k]" by simp
      with pcur pmm1 path_inv_inj[OF inv1] have cm: "cur = m" by simp
      have "path_inv ?h3 (root s) (erase P1 (?ps @ [k])) N1"
      proof (rule path_inv_detach[OF inv1 psp1])
        show "length ?h3 = length h1" by simp
      next
        fix x qs assume px: "P1 x = Some qs" and nu: "\<not> under (?ps @ [k]) qs"
        from path_inv_node[OF inv1 px] have xl: "x < length h1" by simp
        from px nu pcur True have "x \<noteq> cur" by auto
        with ch3[OF xl] nm3 show "name (?h3 ! x) = name (h1 ! x) \<and>
          children (?h3 ! x) =
            (if x = sp then AList.delete k (children (h1 ! sp)) else children (h1 ! x))"
          by simp
      qed
      then show ?thesis by blast
    next
      case False
      have up: "AList.update k m (children (h1 ! cur)) = children (h1 ! cur) @ [(k, m)]"
        using free by (simp add: update_fresh map_of_eq_None_iff)
      have "path_inv ?h3 (root s) (reroot P1 (?ps @ [k]) (path_parts destination @ [k]))
              (N1 + N1 + 1)"
      proof (rule path_inv_regraft[OF inv1 psp1 l1 pcur False free])
        show "length ?h3 = length h1" by simp
      next
        fix x show "name (?h3 ! x) = name (h1 ! x)" by (rule nm3)
      next
        fix x assume "x < length h1"
        from ch3[OF this] up show "children (?h3 ! x) =
          (if x = sp then AList.delete k (children (h1 ! sp))
           else if x = cur then children (h1 ! cur) @ [(k, m)] else children (h1 ! x))"
          by simp
      qed
      then show ?thesis by blast
    qed
    with a show ?thesis by (auto simp: tree_ok_def)
  qed
qed

lemma tree_ok_run: "tree_ok s \<Longrightarrow> run s cs = Inr s' \<Longrightarrow> tree_ok s'"
proof (induction cs arbitrary: s)
  case Nil
  then show ?case by simp
next
  case (Cons c cs)
  show ?case
  proof (cases c)
    case (Create p)
    with Cons.prems(2) obtain rs s1 where c1: "create s p = Inr (rs, s1)"
      and r1: "run s1 cs = Inr s'" by (auto split: sum.splits)
    from Cons.IH[OF tree_ok_create[OF Cons.prems(1) c1] r1] show ?thesis .
  next
    case (Delete p a)
    with Cons.prems(2) have r1: "run (snd (snd (delete s p a))) cs = Inr s'" by simp
    from Cons.IH[OF tree_ok_delete[OF Cons.prems(1)] r1] show ?thesis .
  next
    case (Move a b)
    with Cons.prems(2) have r1: "run (snd (move s a b)) cs = Inr s'" by simp
    from Cons.IH[OF tree_ok_move[OF Cons.prems(1)] r1] show ?thesis .
  qed
qed

lemma path_inv_tree_shaped:
  "path_inv h r P N \<Longrightarrow> P a = Some ps \<Longrightarrow> d = N - length ps \<Longrightarrow> tree_shaped d h a"
proof (induction d arbitrary: a ps)
  case 0
  with path_inv_node[OF 0(1,2)] show ?case by simp
next
  case (Suc d)
  from path_inv_node[OF Suc.prems(1,2)] have al: "a < length h"
    and di: "distinct (map fst (children (h ! a)))" by simp_all
  have "name (h ! c) = k \<and> tree_shaped d h c" if "(k, c) \<in> set (children (h ! a))" for k c
  proof -
    from path_inv_child[OF Suc.prems(1,2) that] have pc: "P c = Some (ps @ [k])"
      and n: "name (h ! c) = k" by simp_all
    from Suc.prems(3) have "d = N - length (ps @ [k])" by simp
    from Suc.IH[OF Suc.prems(1) pc this] n show ?thesis by simp
  qed
  with al di show ?case by (auto simp: list_all_iff)
qed

text \<open>
  Whatever the session, the heap below the root is a tree: every node there has one path
  from the root and is stored under its own name.
\<close>

lemma run_tree_shaped:
  assumes "run init cs = Inr s"
  shows "\<exists>n. tree_shaped n (heap s) (root s)"
proof -
  from tree_ok_run[OF tree_ok_init assms] obtain P N where
    inv: "path_inv (heap s) (root s) P N" by (auto simp: tree_ok_def)
  from path_inv_tree_shaped[OF inv path_inv_root[OF inv]] show ?thesis by blast
qed

lemma run_unique_path:
  assumes "run init cs = Inr s"
    and "walk (heap s) (root s) ps = Some a" and "walk (heap s) (root s) qs = Some a"
  shows "ps = qs"
proof -
  from tree_ok_run[OF tree_ok_init assms(1)] obtain P N where
    inv: "path_inv (heap s) (root s) P N" by (auto simp: tree_ok_def)
  from walk_path[OF inv path_inv_root[OF inv] assms(2)]
    walk_path[OF inv path_inv_root[OF inv] assms(3)] show ?thesis by simp
qed

end
